theory Spec2Isabelle
  imports Main "HOL-Library.Product_Lexorder" "HOL-Library.List_Lexorder" "HOL-Library.Char_ord"
begin

section \<open>Python values used by \<^verbatim>\<open>utils/ddl_to_schema.py\<close>\<close>

text \<open>
  A Python \<^verbatim>\<open>str\<close> is modelled as a \<^typ>\<open>string\<close>; one \<^typ>\<open>char\<close> stands for one code
  point below 256.  Subscripting a sequence out of range raises \<^verbatim>\<open>IndexError\<close> in Python:
  every subscript of the source goes through \<open>py_getitem\<close> or \<open>py_last\<close>, whose failure
  is the value \<open>Inl IndexError\<close>.  Slices never raise.  \<^verbatim>\<open>json.loads\<close> raises
  \<^verbatim>\<open>JSONDecodeError\<close> on a text it cannot decode.
\<close>

datatype py_error = IndexError | JSONDecodeError

definition py_getitem :: "'a list \<Rightarrow> nat \<Rightarrow> py_error + 'a" where
  "py_getitem xs i = (if i < length xs then Inr (xs ! i) else Inl IndexError)"

definition py_last :: "'a list \<Rightarrow> py_error + 'a" where
  "py_last xs = (case rev xs of [] \<Rightarrow> Inl IndexError | x # _ \<Rightarrow> Inr x)"

definition py_slice :: "'a list \<Rightarrow> nat \<Rightarrow> nat \<Rightarrow> 'a list" where
  "py_slice xs a b = take (b - a) (drop a xs)"

definition sq :: char where
  "sq = CHR 0x27"

definition dq :: char where
  "dq = CHR 0x22"

definition backtick :: char where
  "backtick = CHR 0x60"

text \<open>\<^verbatim>\<open>str.isspace\<close> on one code point below 256 (also the class \<^verbatim>\<open>\s\<close> of \<^verbatim>\<open>re\<close>).\<close>

definition py_isspace :: "char \<Rightarrow> bool" where
  "py_isspace c =
     (let n = (of_char c :: nat)
      in (9 \<le> n \<and> n \<le> 13) \<or> (28 \<le> n \<and> n \<le> 32) \<or> n = 133 \<or> n = 160)"

text \<open>\<^verbatim>\<open>str.lower\<close> on one code point below 256.\<close>

definition py_lower_char :: "char \<Rightarrow> char" where
  "py_lower_char c =
     (let n = (of_char c :: nat)
      in if (65 \<le> n \<and> n \<le> 90) \<or> (192 \<le> n \<and> n \<le> 222 \<and> n \<noteq> 215)
         then char_of (n + 32) else c)"

definition py_lower :: "string \<Rightarrow> string" where
  "py_lower s = map py_lower_char s"

definition py_strip :: "string \<Rightarrow> string" where
  "py_strip s = rev (dropWhile py_isspace (rev (dropWhile py_isspace s)))"

text \<open>\<^verbatim>\<open>s.split()\<close>: the maximal runs of non-whitespace characters.\<close>

fun split_ws :: "string \<Rightarrow> string \<Rightarrow> string list" where
  "split_ws cur [] = (if cur = [] then [] else [cur])"
| "split_ws cur (c # cs) =
     (if py_isspace c then (if cur = [] then split_ws [] cs else cur # split_ws [] cs)
      else split_ws (cur @ [c]) cs)"

definition py_split :: "string \<Rightarrow> string list" where
  "py_split s = split_ws [] s"

text \<open>\<^verbatim>\<open>s.split(sep)\<close> for a separator of one character.\<close>

fun split_sep :: "char \<Rightarrow> string \<Rightarrow> string \<Rightarrow> string list" where
  "split_sep sep cur [] = [cur]"
| "split_sep sep cur (c # cs) =
     (if c = sep then cur # split_sep sep [] cs else split_sep sep (cur @ [c]) cs)"

definition py_split_sep :: "char \<Rightarrow> string \<Rightarrow> string list" where
  "py_split_sep sep s = split_sep sep [] s"

definition startswith :: "string \<Rightarrow> char \<Rightarrow> bool" where
  "startswith s c = (case s of [] \<Rightarrow> False | x # _ \<Rightarrow> x = c)"

definition endswith :: "string \<Rightarrow> char \<Rightarrow> bool" where
  "endswith s c = (case rev s of [] \<Rightarrow> False | x # _ \<Rightarrow> x = c)"

text \<open>\<^verbatim>\<open>s.find(sub, start)\<close>; \<open>None\<close> stands for the result \<^verbatim>\<open>-1\<close>.\<close>

fun is_prefix :: "string \<Rightarrow> string \<Rightarrow> bool" where
  "is_prefix [] s = True"
| "is_prefix (p # ps) [] = False"
| "is_prefix (p # ps) (c # cs) = (p = c \<and> is_prefix ps cs)"

fun find_in :: "string \<Rightarrow> string \<Rightarrow> nat option" where
  "find_in sub [] = (if sub = [] then Some 0 else None)"
| "find_in sub (c # cs) =
     (if is_prefix sub (c # cs) then Some 0 else map_option Suc (find_in sub cs))"

definition py_find :: "string \<Rightarrow> string \<Rightarrow> nat \<Rightarrow> nat option" where
  "py_find sub s start =
     (if length s < start then None
      else map_option (\<lambda>k. start + k) (find_in sub (drop start s)))"

section \<open>Identifier normalizer: \<^verbatim>\<open>strip_brackets_and_quotes\<close>\<close>

definition strip_brackets_and_quotes :: "string \<Rightarrow> py_error + string" where
  "strip_brackets_and_quotes name =
     (if name = [] then Inr []
      else
        let s0 = py_strip name in
        (case (if CHR ''.'' \<in> set s0
               then (case py_last (py_split_sep CHR ''.'' s0) of
                       Inl e \<Rightarrow> Inl e
                     | Inr p \<Rightarrow> Inr (py_strip p))
               else Inr s0) of
           Inl e \<Rightarrow> Inl e
         | Inr s1 \<Rightarrow>
             let s2 = (if startswith s1 CHR ''['' \<and> endswith s1 CHR '']''
                       then butlast (tl s1)
                       else let a = (if startswith s1 CHR ''['' then tl s1 else s1)
                            in (if endswith a CHR '']'' then butlast a else a));
                 s3 = (if (startswith s2 dq \<and> endswith s2 dq) \<or> (startswith s2 sq \<and> endswith s2 sq)
                       then butlast (tl s2)
                       else let a = (if startswith s2 dq \<or> startswith s2 sq then tl s2 else s2)
                            in (if endswith a dq \<or> endswith a sq then butlast a else a))
             in Inr (py_strip s3)))"

section \<open>The regular expressions of the source\<close>

text \<open>
  The three patterns of the source are matched by hand-written matchers.  Each quantifier
  of these patterns is followed by an item that none of the characters it consumed can
  start, so the backtracking matcher of \<^verbatim>\<open>re\<close> succeeds exactly when the greedy,
  deterministic reading below does, and with the same groups.  Under \<^verbatim>\<open>re.I\<close> a
  letter of the pattern matches a code point below 256 when its lower case is that letter.
\<close>

fun match_lit_ci :: "string \<Rightarrow> string \<Rightarrow> string option" where
  "match_lit_ci [] s = Some s"
| "match_lit_ci (p # ps) [] = None"
| "match_lit_ci (p # ps) (c # cs) = (if py_lower_char c = p then match_lit_ci ps cs else None)"

definition match_ws_plus :: "string \<Rightarrow> string option" where
  "match_ws_plus s =
     (case s of [] \<Rightarrow> None
      | c # cs \<Rightarrow> if py_isspace c then Some (dropWhile py_isspace cs) else None)"

definition is_ident_char :: "char \<Rightarrow> bool" where
  "is_ident_char c =
     (let n = (of_char c :: nat)
      in (48 \<le> n \<and> n \<le> 57) \<or> (65 \<le> n \<and> n \<le> 90) \<or> (97 \<le> n \<and> n \<le> 122) \<or> n = 95)"

text \<open>The class \<^verbatim>\<open>[A-Za-z0-9_\.[\[\]"]\<close>.\<close>

definition is_table_char :: "char \<Rightarrow> bool" where
  "is_table_char c =
     (is_ident_char c \<or> c = CHR ''.'' \<or> c = CHR ''['' \<or> c = CHR '']'' \<or> c = dq)"

text \<open>\<^verbatim>\<open>create\s+table\s+([A-Za-z0-9_\.[\[\]"]+)\s*$\<close> with \<^verbatim>\<open>re.I\<close>, anchored at the
  start of \<open>s\<close>; the result is group 1.\<close>

definition table_re_match_here :: "string \<Rightarrow> string option" where
  "table_re_match_here s =
     (case match_lit_ci ''create'' s of None \<Rightarrow> None
      | Some r1 \<Rightarrow>
     (case match_ws_plus r1 of None \<Rightarrow> None
      | Some r2 \<Rightarrow>
     (case match_lit_ci ''table'' r2 of None \<Rightarrow> None
      | Some r3 \<Rightarrow>
     (case match_ws_plus r3 of None \<Rightarrow> None
      | Some r4 \<Rightarrow>
         let g = takeWhile is_table_char r4;
             r5 = dropWhile is_table_char r4
         in if g \<noteq> [] \<and> dropWhile py_isspace r5 = [] then Some g else None))))"

text \<open>\<^verbatim>\<open>re.search\<close>: the match at the leftmost start position.\<close>

fun table_re_search :: "string \<Rightarrow> string option" where
  "table_re_search [] = table_re_match_here []"
| "table_re_search (c # cs) =
     (case table_re_match_here (c # cs) of
        Some g \<Rightarrow> Some g
      | None \<Rightarrow> table_re_search cs)"

definition lit_ci :: "string \<Rightarrow> string \<Rightarrow> bool" where
  "lit_ci p s = (case match_lit_ci p s of None \<Rightarrow> False | Some r \<Rightarrow> True)"

definition lit2_ci :: "string \<Rightarrow> string \<Rightarrow> string \<Rightarrow> bool" where
  "lit2_ci p q s =
     (case match_lit_ci p s of None \<Rightarrow> False
      | Some r \<Rightarrow> (case match_ws_plus r of None \<Rightarrow> False | Some r' \<Rightarrow> lit_ci q r'))"

text \<open>\<^verbatim>\<open>^(constraint|primary\s+key|unique|foreign\s+key|check|index|alter|constraint)\<close>
  with \<^verbatim>\<open>re.I\<close>, by \<^verbatim>\<open>re.match\<close>.\<close>

definition constraint_re_match :: "string \<Rightarrow> bool" where
  "constraint_re_match s =
     (lit_ci ''constraint'' s \<or> lit2_ci ''primary'' ''key'' s \<or> lit_ci ''unique'' s \<or>
      lit2_ci ''foreign'' ''key'' s \<or> lit_ci ''check'' s \<or> lit_ci ''index'' s \<or>
      lit_ci ''alter'' s \<or> lit_ci ''constraint'' s)"

text \<open>One alternative \<^verbatim>\<open>\[([^\]]+)\]\<close>, \<^verbatim>\<open>"([^"]+)"\<close> or the backtick one: an opening
  character, a non-empty run without the closing character, the closing character.\<close>

definition delimited_name :: "char \<Rightarrow> char \<Rightarrow> string \<Rightarrow> string option" where
  "delimited_name opn cls s =
     (case s of [] \<Rightarrow> None
      | x # r \<Rightarrow>
          if x = opn
          then (let n = takeWhile (\<lambda>c. c \<noteq> cls) r;
                    r' = dropWhile (\<lambda>c. c \<noteq> cls) r
                in if n \<noteq> [] \<and> r' \<noteq> [] then Some n else None)
          else None)"

text \<open>The pattern of \<^verbatim>\<open>parse_column_name_from_def\<close>, by \<^verbatim>\<open>re.match\<close>; the result is
  the one group that took part in the match (what the source's chain of \<^verbatim>\<open>or\<close> over
  the four groups selects: a group that took part is a non-empty string, the others are
  \<^verbatim>\<open>None\<close>).\<close>

definition name_re_match :: "string \<Rightarrow> string option" where
  "name_re_match s =
     (let r = dropWhile py_isspace s in
      case delimited_name CHR ''['' CHR '']'' r of Some b \<Rightarrow> Some b
      | None \<Rightarrow>
     (case delimited_name dq dq r of Some q \<Rightarrow> Some q
      | None \<Rightarrow>
     (case delimited_name backtick backtick r of Some bt \<Rightarrow> Some bt
      | None \<Rightarrow>
         (let i = takeWhile is_ident_char r in if i \<noteq> [] then Some i else None))))"

section \<open>DDL block scanner: \<^verbatim>\<open>find_create_table_blocks\<close>\<close>

record ddl_block =
  table_raw :: string
  cols_block :: string

text \<open>The raw table identifier computed from \<^verbatim>\<open>pre = sql_text[pos:open_paren_pos]\<close>.\<close>

definition raw_table_of :: "string \<Rightarrow> py_error + string" where
  "raw_table_of pre =
     (case table_re_search pre of
        None \<Rightarrow>
          (case (let toks = py_split (py_strip pre)
                 in if toks \<noteq> [] then map_sum id Some (py_last toks) else Inr None) of
             Inl e \<Rightarrow> Inl e
           | Inr token \<Rightarrow>
               Inr (case token of None \<Rightarrow> ''unknown_table''
                    | Some t \<Rightarrow> if t = [] then ''unknown_table'' else t))
      | Some g \<Rightarrow> Inr g)"

text \<open>The inner loop: from \<open>i\<close>, the position of the close parenthesis that brings the
  depth back to zero, or \<open>None\<close> when the text ends first.\<close>

function scan_close :: "string \<Rightarrow> nat \<Rightarrow> int \<Rightarrow> py_error + nat option" where
  "scan_close sql_text i depth =
     (if i < length sql_text then
        (case py_getitem sql_text i of
           Inl e \<Rightarrow> Inl e
         | Inr ch \<Rightarrow>
             if ch = CHR ''('' then scan_close sql_text (i + 1) (depth + 1)
             else if ch = CHR '')'' then
               (if depth - 1 = 0 then Inr (Some i)
                else scan_close sql_text (i + 1) (depth - 1))
             else scan_close sql_text (i + 1) depth)
      else Inr None)"
  by pat_completeness auto
termination
  by (relation "measure (\<lambda>(sql_text, i, depth). length sql_text - i)") auto

declare scan_close.simps [simp del]

lemma find_in_bound: "find_in sub s = Some k \<Longrightarrow> k + length sub \<le> length s"
proof (induction s arbitrary: k)
  case Nil
  then show ?case by (simp split: if_splits)
next
  case (Cons c cs)
  have pre: "is_prefix sub t \<Longrightarrow> length sub \<le> length t" for t
    by (induction sub t rule: is_prefix.induct) auto
  show ?case
  proof (cases "is_prefix sub (c # cs)")
    case True
    with Cons.prems pre [of "c # cs"] show ?thesis by simp
  next
    case False
    with Cons.prems obtain k' where "find_in sub cs = Some k'" "k = Suc k'"
      by auto
    with Cons.IH [of k'] show ?thesis by simp
  qed
qed

lemma py_find_bound:
  "py_find sub s start = Some p \<Longrightarrow> start \<le> p \<and> p + length sub \<le> length s"
  by (auto simp: py_find_def split: if_splits dest!: find_in_bound)

lemma scan_close_bound:
  "scan_close sql_text i depth = Inr (Some e) \<Longrightarrow> i \<le> e \<and> e < length sql_text"
proof (induction sql_text i depth rule: scan_close.induct)
  case (1 sql_text i depth)
  show ?case
  proof (cases "i < length sql_text")
    case True
    then have g: "py_getitem sql_text i = Inr (sql_text ! i)"
      by (simp add: py_getitem_def)
    from "1.prems" True g "1.IH" [OF True g] show ?thesis
      by (subst (asm) scan_close.simps) (auto split: if_splits)
  next
    case False
    with "1.prems" show ?thesis by (subst (asm) scan_close.simps) simp
  qed
qed

text \<open>The outer \<^verbatim>\<open>while True\<close> loop; \<open>lower\<close> is \<^verbatim>\<open>sql_text.lower()\<close>, computed once
  before the loop.\<close>

function find_blocks_loop ::
  "string \<Rightarrow> string \<Rightarrow> nat \<Rightarrow> ddl_block list \<Rightarrow> py_error + ddl_block list" where
  "find_blocks_loop sql_text lower idx blocks =
     (case py_find ''create table'' lower idx of
        None \<Rightarrow> Inr blocks
      | Some pos \<Rightarrow>
          (case py_find ''('' sql_text pos of
             None \<Rightarrow> find_blocks_loop sql_text lower (pos + 12) blocks
           | Some open_paren_pos \<Rightarrow>
               (case raw_table_of (py_slice sql_text pos open_paren_pos) of
                  Inl e \<Rightarrow> Inl e
                | Inr raw_table \<Rightarrow>
                    (case scan_close sql_text open_paren_pos 0 of
                       Inl e \<Rightarrow> Inl e
                     | Inr None \<Rightarrow> find_blocks_loop sql_text lower (pos + 12) blocks
                     | Inr (Some end_pos) \<Rightarrow>
                         find_blocks_loop sql_text lower (end_pos + 1)
                           (blocks @ [\<lparr>table_raw = raw_table,
                                       cols_block = py_slice sql_text (open_paren_pos + 1) end_pos\<rparr>])))))"
  by pat_completeness auto
termination
proof (relation "measure (\<lambda>(sql_text, lower, idx, blocks).
          max (length lower) (length sql_text) + 1 - idx)", goal_cases)
  case 1
  show ?case by simp
next
  case (2 sql_text lower idx blocks pos)
  then show ?case by (auto dest!: py_find_bound)
next
  case (3 sql_text lower idx blocks pos open_paren_pos raw_table r)
  then show ?case by (auto dest!: py_find_bound)
next
  case (4 sql_text lower idx blocks pos open_paren_pos raw_table r end_pos)
  then show ?case by (auto dest!: py_find_bound scan_close_bound)
qed

declare find_blocks_loop.simps [simp del]

definition find_create_table_blocks :: "string \<Rightarrow> py_error + ddl_block list" where
  "find_create_table_blocks sql_text = find_blocks_loop sql_text (py_lower sql_text) 0 []"

section \<open>Top-level splitter: \<^verbatim>\<open>split_top_level_commas\<close>\<close>

text \<open>The local variables of the loop: \<^verbatim>\<open>parts\<close>, \<^verbatim>\<open>cur\<close>, \<^verbatim>\<open>depth\<close>, \<^verbatim>\<open>in_sq\<close>,
  \<^verbatim>\<open>in_dq\<close>, \<^verbatim>\<open>in_br\<close>.\<close>

type_synonym split_state = "string list \<times> string \<times> int \<times> bool \<times> bool \<times> bool"

text \<open>The body of the \<^verbatim>\<open>while i < len(s)\<close> loop for the character \<open>ch\<close>.\<close>

fun split_step :: "split_state \<Rightarrow> char \<Rightarrow> split_state" where
  "split_step (parts, cur, depth, in_sq, in_dq, in_br) ch =
     (if ch = sq \<and> \<not> in_dq \<and> \<not> in_br then
        (parts, cur @ [ch], depth, \<not> in_sq, in_dq, in_br)
      else if ch = dq \<and> \<not> in_sq \<and> \<not> in_br then
        (parts, cur @ [ch], depth, in_sq, \<not> in_dq, in_br)
      else if ch = CHR ''['' \<and> \<not> in_sq \<and> \<not> in_dq then
        (parts, cur @ [ch], depth, in_sq, in_dq, True)
      else if ch = CHR '']'' \<and> in_br then
        (parts, cur @ [ch], depth, in_sq, in_dq, False)
      else if in_sq \<or> in_dq \<or> in_br then
        (parts, cur @ [ch], depth, in_sq, in_dq, in_br)
      else if ch = CHR ''('' then
        (parts, cur @ [ch], depth + 1, in_sq, in_dq, in_br)
      else if ch = CHR '')'' then
        (parts, cur @ [ch], (if depth > 0 then depth - 1 else depth), in_sq, in_dq, in_br)
      else if ch = CHR '','' \<and> depth = 0 then
        (let part = py_strip cur
         in ((if part \<noteq> [] then parts @ [part] else parts), [], depth, in_sq, in_dq, in_br))
      else
        (parts, cur @ [ch], depth, in_sq, in_dq, in_br))"

text \<open>After the loop: the last accumulated part is appended when it is not blank.\<close>

fun split_finish :: "split_state \<Rightarrow> string list" where
  "split_finish (parts, cur, depth, in_sq, in_dq, in_br) =
     (let last = py_strip cur in if last \<noteq> [] then parts @ [last] else parts)"

function split_loop :: "string \<Rightarrow> nat \<Rightarrow> split_state \<Rightarrow> py_error + string list" where
  "split_loop s i st =
     (if i < length s then
        (case py_getitem s i of
           Inl e \<Rightarrow> Inl e
         | Inr ch \<Rightarrow> split_loop s (i + 1) (split_step st ch))
      else Inr (split_finish st))"
  by pat_completeness auto
termination
  by (relation "measure (\<lambda>(s, i, st). length s - i)") auto

declare split_loop.simps [simp del]

definition split_top_level_commas :: "string \<Rightarrow> py_error + string list" where
  "split_top_level_commas s = split_loop s 0 ([], [], 0, False, False, False)"

section \<open>Column definition parser: \<^verbatim>\<open>parse_column_name_from_def\<close>\<close>

definition parse_column_name_from_def :: "string \<Rightarrow> py_error + string" where
  "parse_column_name_from_def col_def =
     (let s = py_strip col_def in
      if constraint_re_match s then Inr []
      else
        let s' = (if endswith s CHR '','' then py_strip (butlast s) else s) in
        (case name_re_match s' of
           None \<Rightarrow>
             (let toks = py_split s'
              in if toks \<noteq> []
                 then (case py_getitem toks 0 of
                         Inl e \<Rightarrow> Inl e
                       | Inr t \<Rightarrow> strip_brackets_and_quotes t)
                 else Inr [])
         | Some name \<Rightarrow> strip_brackets_and_quotes name))"

section \<open>Schema extractor: \<^verbatim>\<open>ddl_to_schema\<close>\<close>

text \<open>A Python \<^verbatim>\<open>dict\<close> keeps its keys in insertion order; assigning to a key that is
  present replaces the value where it stands.\<close>

type_synonym schema = "(string \<times> string list) list"

fun dict_set :: "('k \<times> 'v) list \<Rightarrow> 'k \<Rightarrow> 'v \<Rightarrow> ('k \<times> 'v) list" where
  "dict_set [] k v = [(k, v)]"
| "dict_set ((k', v') # kvs) k v =
     (if k' = k then (k, v) # kvs else (k', v') # dict_set kvs k v)"

text \<open>The loop \<^verbatim>\<open>for p in parts\<close>.\<close>

fun collect_cols :: "string list \<Rightarrow> string list \<Rightarrow> py_error + string list" where
  "collect_cols [] cols = Inr cols"
| "collect_cols (p # ps) cols =
     (case parse_column_name_from_def p of
        Inl e \<Rightarrow> Inl e
      | Inr colname \<Rightarrow>
          collect_cols ps
            (if colname \<noteq> [] then (if colname \<notin> set cols then cols @ [colname] else cols)
             else cols))"

text \<open>The loop \<^verbatim>\<open>for blk in blocks\<close>.\<close>

fun schema_loop :: "ddl_block list \<Rightarrow> schema \<Rightarrow> py_error + schema" where
  "schema_loop [] tables = Inr tables"
| "schema_loop (blk # blks) tables =
     (case strip_brackets_and_quotes (table_raw blk) of
        Inl e \<Rightarrow> Inl e
      | Inr table \<Rightarrow>
          (case split_top_level_commas (cols_block blk) of
             Inl e \<Rightarrow> Inl e
           | Inr parts \<Rightarrow>
               (case collect_cols parts [] of
                  Inl e \<Rightarrow> Inl e
                | Inr cols \<Rightarrow>
                    schema_loop blks
                      (if cols \<noteq> [] then dict_set tables table cols else tables))))"

definition ddl_to_schema :: "string \<Rightarrow> py_error + schema" where
  "ddl_to_schema sql_text =
     (case find_create_table_blocks sql_text of
        Inl e \<Rightarrow> Inl e
      | Inr blocks \<Rightarrow> schema_loop blocks [])"

section \<open>Registry builder and reader: \<^verbatim>\<open>utils/build_registry.py\<close>, \<^verbatim>\<open>utils/table_selector.py\<close>\<close>


definition normalize_name :: "string \<Rightarrow> string" where
  "normalize_name s =
     map (\<lambda>c. let n = (of_char c :: nat)
              in if (48 \<le> n \<and> n \<le> 57) \<or> (97 \<le> n \<and> n \<le> 122) then c else CHR ''_'')
       (py_lower s)"

definition py_join :: "string \<Rightarrow> string list \<Rightarrow> string" where
  "py_join sep xs = (case xs of [] \<Rightarrow> [] | x # r \<Rightarrow> x @ concat (map (\<lambda>y. sep @ y) r))"

definition signature :: "(string \<Rightarrow> string) \<Rightarrow> string \<Rightarrow> string list \<Rightarrow> string" where
  "signature sha1_hexdigest table cols =
     (let base = table @ ''|'' @ py_join '','' cols in take 8 (sha1_hexdigest base))"

definition py_endswith :: "string \<Rightarrow> string \<Rightarrow> bool" where
  "py_endswith s suffix = is_prefix (rev suffix) (rev s)"

definition py_contains :: "string \<Rightarrow> string \<Rightarrow> bool" where
  "py_contains sub s = (case find_in sub s of None \<Rightarrow> False | Some k \<Rightarrow> True)"

definition priority :: "string \<Rightarrow> bool \<times> bool \<times> bool \<times> bool" where
  "priority c =
     (py_endswith c ''_id'' \<or> py_endswith c ''id'', py_contains ''date'' c,
      py_contains ''name'' c, py_contains ''status'' c)"

definition pick_top_columns :: "string list \<Rightarrow> nat \<Rightarrow> string list" where
  "pick_top_columns cols n = take n (rev (sort_key priority (rev cols)))"


record doc =
  table :: string
  sig :: string
  top_columns :: "string list"
  aliases :: "string list"
  sample_queries :: "string list"
  neighbors :: "string list"
  sensitivity :: string


text \<open>The set \<^verbatim>\<open>{normalize(table)} | {normalize(t) for t in table.split('_')}\<close>.\<close>

definition alias_set :: "string \<Rightarrow> string set" where
  "alias_set tbl = insert (normalize_name tbl) (normalize_name ` set (py_split_sep CHR ''_'' tbl))"

text \<open>The document of one table.  \<open>set_order\<close> is the order in which the interpreter
  iterates over a set of strings (it depends on the hash seed of the process), and
  \<open>sha1_hexdigest\<close> is \<^verbatim>\<open>hashlib.sha1(...).hexdigest()\<close> of the encoded text.\<close>

definition make_doc ::
  "(string \<Rightarrow> string) \<Rightarrow> (string set \<Rightarrow> string list) \<Rightarrow> string \<Rightarrow> string list \<Rightarrow> doc" where
  "make_doc sha1_hexdigest set_order tbl cols =
     (let top = pick_top_columns cols 4;
          sg = signature sha1_hexdigest tbl top;
          als = set_order (alias_set tbl)
      in \<lparr>table = tbl, sig = ''tbl:'' @ tbl @ ''|h:'' @ sg, top_columns = top, aliases = als,
          sample_queries = [], neighbors = [], sensitivity = ''low''\<rparr>)"






section \<open>Auxiliary notions\<close>

text \<open>Notions used to state and prove properties of the functions above.  First: a
  string with no whitespace at either end, the three phases of the normalizer, and a name
  that still carries a bracket or a quote at one of its ends.\<close>

definition stripped :: "string \<Rightarrow> bool" where
  "stripped s = (s = [] \<or> (\<not> py_isspace (hd s) \<and> \<not> py_isspace (last s)))"

definition unqualify :: "string \<Rightarrow> string" where
  "unqualify s =
     (if CHR ''.'' \<in> set s then py_strip (last (py_split_sep CHR ''.'' s)) else s)"

definition unbracket :: "string \<Rightarrow> string" where
  "unbracket s1 =
     (if startswith s1 CHR ''['' \<and> endswith s1 CHR '']''
      then butlast (tl s1)
      else let a = (if startswith s1 CHR ''['' then tl s1 else s1)
           in (if endswith a CHR '']'' then butlast a else a))"

definition unquote :: "string \<Rightarrow> string" where
  "unquote s2 =
     (if (startswith s2 dq \<and> endswith s2 dq) \<or> (startswith s2 sq \<and> endswith s2 sq)
      then butlast (tl s2)
      else let a = (if startswith s2 dq \<or> startswith s2 sq then tl s2 else s2)
           in (if endswith a dq \<or> endswith a sq then butlast a else a))"

definition has_wrapper :: "string \<Rightarrow> bool" where
  "has_wrapper s =
     (startswith s CHR ''['' \<or> startswith s dq \<or> startswith s sq \<or>
      endswith s CHR '']'' \<or> endswith s dq \<or> endswith s sq)"

text \<open>The scan for the matching close parenthesis, as a recursion over the characters
  from position \<open>i\<close> on.\<close>

fun match_close :: "string \<Rightarrow> nat \<Rightarrow> int \<Rightarrow> nat option" where
  "match_close [] i depth = None"
| "match_close (ch # cs) i depth =
     (if ch = CHR ''('' then match_close cs (i + 1) (depth + 1)
      else if ch = CHR '')'' then
        (if depth - 1 = 0 then Some i else match_close cs (i + 1) (depth - 1))
      else match_close cs (i + 1) depth)"

text \<open>The raw table identifier, as a value.\<close>

definition raw_table_name :: "string \<Rightarrow> string" where
  "raw_table_name pre =
     (case table_re_search pre of
        Some g \<Rightarrow> g
      | None \<Rightarrow>
          (let toks = py_split (py_strip pre)
           in if toks \<noteq> [] \<and> last toks \<noteq> [] then last toks else ''unknown_table''))"

text \<open>The name selected by \<^verbatim>\<open>parse_column_name_from_def\<close> before normalization.\<close>

definition leading_name :: "string \<Rightarrow> string" where
  "leading_name s' =
     (case name_re_match s' of
        Some name \<Rightarrow> name
      | None \<Rightarrow> (case py_split s' of [] \<Rightarrow> [] | t # ts \<Rightarrow> t))"

text \<open>The normalized table name and the column list that one block contributes.\<close>

definition block_table :: "ddl_block \<Rightarrow> py_error + string" where
  "block_table blk = strip_brackets_and_quotes (table_raw blk)"

definition block_cols :: "ddl_block \<Rightarrow> py_error + string list" where
  "block_cols blk =
     (case split_top_level_commas (cols_block blk) of
        Inl e \<Rightarrow> Inl e
      | Inr parts \<Rightarrow> collect_cols parts [])"

text \<open>The non-empty column lists of the blocks whose normalized table name is \<open>t\<close>, in
  the order of the blocks.\<close>

definition nonempty_columns_of :: "string \<Rightarrow> ddl_block list \<Rightarrow> string list list" where
  "nonempty_columns_of t blocks =
     filter (\<lambda>c. c \<noteq> [])
       (map (\<lambda>b. case block_cols b of Inr c \<Rightarrow> c | Inl e \<Rightarrow> [])
          (filter (\<lambda>b. block_table b = Inr t) blocks))"




text \<open>A statement \<^verbatim>\<open>CREATE TABLE t (c1 TYPE1, c2 TYPE2, ...)\<close> whose table name,
  column names and type names are bare identifiers; a character with no meaning for the
  splitter.\<close>

definition simple_name :: "string \<Rightarrow> bool" where
  "simple_name s = (s \<noteq> [] \<and> list_all is_ident_char s)"

definition column_defs_text :: "(string \<times> string) list \<Rightarrow> string" where
  "column_defs_text defs = py_join '', '' (map (\<lambda>(c, ty). c @ '' '' @ ty) defs)"

definition create_table_text :: "string \<Rightarrow> (string \<times> string) list \<Rightarrow> string" where
  "create_table_text t defs = ''CREATE TABLE '' @ t @ '' ('' @ column_defs_text defs @ '')''"

definition plain_char :: "char \<Rightarrow> bool" where
  "plain_char c = (c \<notin> set [sq, dq, CHR ''['', CHR '']'', CHR ''('', CHR '')'', CHR '',''])"


text \<open>The parentheses of a body are balanced: scanning it from depth \<open>d\<close>, the depth never
  goes below zero and ends at zero.\<close>

fun balanced :: "string \<Rightarrow> int \<Rightarrow> bool" where
  "balanced [] d = (d = 0)"
| "balanced (c # cs) d =
     (if c = CHR ''('' then balanced cs (d + 1)
      else if c = CHR '')'' then 0 < d \<and> balanced cs (d - 1)
      else balanced cs d)"

section \<open>Properties of the string primitives\<close>

lemma split_sep_nonempty: "split_sep sep cur s \<noteq> []"
  by (induction s arbitrary: cur) auto

lemma py_last_Inr: "xs \<noteq> [] \<Longrightarrow> py_last xs = Inr (last xs)"
  by (cases xs rule: rev_cases) (auto simp: py_last_def)

lemma last_split_sep_no_sep:
  "sep \<in> set s \<Longrightarrow> sep \<notin> set (last (split_sep sep cur s))"
proof (induction s arbitrary: cur)
  case Nil
  then show ?case by simp
next
  case (Cons c cs)
  have none: "sep \<notin> set t \<Longrightarrow> sep \<notin> set u \<Longrightarrow> sep \<notin> set (last (split_sep sep u t))" for t u
    by (induction t arbitrary: u) auto
  show ?case
  proof (cases "sep \<in> set cs")
    case True
    with Cons.IH show ?thesis by (simp add: split_sep_nonempty)
  next
    case False
    with Cons.prems have "c = sep" by simp
    with False none [of cs "[]"] show ?thesis by (simp add: split_sep_nonempty)
  qed
qed

lemma py_strip_fixed: "stripped s \<Longrightarrow> py_strip s = s"
proof (cases s rule: rev_cases)
  case Nil
  then show ?thesis by (simp add: py_strip_def)
next
  case (snoc ys y)
  assume "stripped s"
  with snoc have h: "\<not> py_isspace (hd s)" and l: "\<not> py_isspace y"
    by (auto simp: stripped_def)
  from snoc have ne: "s \<noteq> []" by simp
  from ne h have "dropWhile py_isspace s = s"
    by (cases s) simp_all
  moreover from snoc l have "dropWhile py_isspace (rev s) = rev s"
    by simp
  ultimately show ?thesis by (simp add: py_strip_def)
qed

lemma py_strip_stripped: "stripped (py_strip s)"
proof -
  define t where "t = dropWhile py_isspace s"
  define u where "u = dropWhile py_isspace (rev t)"
  have st: "py_strip s = rev u" by (simp add: py_strip_def t_def u_def)
  show ?thesis
  proof (cases "u = []")
    case True
    with st show ?thesis by (simp add: stripped_def)
  next
    case False
    then have hu: "\<not> py_isspace (hd u)"
      unfolding u_def by (metis hd_dropWhile)
    have "rev t \<noteq> []" using False u_def by auto
    then have tne: "t \<noteq> []" by simp
    then have ht: "\<not> py_isspace (hd t)"
      unfolding t_def by (metis hd_dropWhile)
    have "last (rev t) = last u" 
      using False unfolding u_def
      by (metis last_appendR takeWhile_dropWhile_id)
    then have lu: "last u = hd t" using tne by (simp add: last_rev)
    from False hu lu ht show ?thesis
      by (simp add: st stripped_def hd_rev last_rev)
  qed
qed

lemma py_strip_idem: "py_strip (py_strip s) = py_strip s"
  by (rule py_strip_fixed [OF py_strip_stripped])

lemma set_py_strip: "set (py_strip s) \<subseteq> set s"
proof
  fix x
  assume "x \<in> set (py_strip s)"
  then have "x \<in> set (dropWhile py_isspace (rev (dropWhile py_isspace s)))"
    by (simp add: py_strip_def)
  then have "x \<in> set (rev (dropWhile py_isspace s))"
    by (rule set_dropWhileD)
  then have "x \<in> set (dropWhile py_isspace s)" by simp
  then show "x \<in> set s" by (rule set_dropWhileD)
qed

lemma length_py_strip: "length (py_strip s) \<le> length s"
  unfolding py_strip_def
  by (metis length_dropWhile_le length_rev order_trans)

section \<open>Properties of the normalizer\<close>

lemma set_tl_sub: "x \<in> set (tl s) \<Longrightarrow> x \<in> set s"
  by (cases s) auto

lemma unbracket_cases:
  "unbracket s = s \<or> unbracket s = tl s \<or> unbracket s = butlast s \<or> unbracket s = butlast (tl s)"
  by (simp add: unbracket_def Let_def)

lemma unquote_cases:
  "unquote s = s \<or> unquote s = tl s \<or> unquote s = butlast s \<or> unquote s = butlast (tl s)"
  by (simp add: unquote_def Let_def)

lemma set_unbracket: "set (unbracket s) \<subseteq> set s"
  using unbracket_cases [of s] by (auto dest!: in_set_butlastD set_tl_sub)

lemma set_unquote: "set (unquote s) \<subseteq> set s"
  using unquote_cases [of s] by (auto dest!: in_set_butlastD set_tl_sub)

lemma length_unbracket: "length (unbracket s) \<le> length s"
  using unbracket_cases [of s] by auto

lemma length_unquote: "length (unquote s) \<le> length s"
  using unquote_cases [of s] by auto

lemma strip_brackets_and_quotes_eq:
  "strip_brackets_and_quotes name =
     Inr (if name = [] then [] else py_strip (unquote (unbracket (unqualify (py_strip name)))))"
proof -
  have folded: "strip_brackets_and_quotes name =
     (if name = [] then Inr []
      else
        let s0 = py_strip name in
        (case (if CHR ''.'' \<in> set s0
               then (case py_last (py_split_sep CHR ''.'' s0) of
                       Inl e \<Rightarrow> Inl e
                     | Inr p \<Rightarrow> Inr (py_strip p))
               else Inr s0) of
           Inl e \<Rightarrow> Inl e
         | Inr s1 \<Rightarrow>
             let s2 = unbracket s1; s3 = unquote s2
             in Inr (py_strip s3)))"
    unfolding strip_brackets_and_quotes_def unbracket_def unquote_def ..
  have l: "py_last (py_split_sep CHR ''.'' t) = Inr (last (py_split_sep CHR ''.'' t))" for t
    by (simp add: py_split_sep_def py_last_Inr split_sep_nonempty)
  show ?thesis
    by (simp add: folded l unqualify_def Let_def)
qed

lemma length_tl_butlast: "s \<noteq> [] \<Longrightarrow> length (tl s) < length s"
  "s \<noteq> [] \<Longrightarrow> length (butlast s) < length s"
  "s \<noteq> [] \<Longrightarrow> length (butlast (tl s)) < length s"
  by (cases s; simp)+

lemma startswith_nonempty: "startswith s c \<Longrightarrow> s \<noteq> []"
  by (auto simp: startswith_def)

lemma endswith_nonempty: "endswith s c \<Longrightarrow> s \<noteq> []"
  by (auto simp: endswith_def)

lemma unbracket_id:
  "\<not> startswith s CHR ''['' \<Longrightarrow> \<not> endswith s CHR '']'' \<Longrightarrow> unbracket s = s"
  by (simp add: unbracket_def)

lemma unbracket_shorter:
  "startswith s CHR ''['' \<or> endswith s CHR '']'' \<Longrightarrow> length (unbracket s) < length s"
  by (cases s) (auto simp: unbracket_def Let_def startswith_def endswith_def less_Suc_eq_le split: list.splits if_splits)

lemma unquote_id:
  "\<not> startswith s dq \<Longrightarrow> \<not> startswith s sq \<Longrightarrow> \<not> endswith s dq \<Longrightarrow> \<not> endswith s sq
   \<Longrightarrow> unquote s = s"
  by (simp add: unquote_def)

lemma unquote_shorter:
  "startswith s dq \<or> startswith s sq \<or> endswith s dq \<or> endswith s sq
   \<Longrightarrow> length (unquote s) < length s"
  by (cases s) (auto simp: unquote_def Let_def startswith_def endswith_def less_Suc_eq_le split: list.splits if_splits)

lemma unqualify_no_dot: "CHR ''.'' \<notin> set (unqualify s)"
proof (cases "CHR ''.'' \<in> set s")
  case True
  then have "CHR ''.'' \<notin> set (last (py_split_sep CHR ''.'' s))"
    unfolding py_split_sep_def by (rule last_split_sep_no_sep)
  with set_py_strip [of "last (py_split_sep CHR ''.'' s)"] True show ?thesis
    by (auto simp: unqualify_def)
next
  case False
  then show ?thesis by (simp add: unqualify_def)
qed

lemma normalized_props:
  assumes "strip_brackets_and_quotes n = Inr out"
  shows "stripped out" and "CHR ''.'' \<notin> set out"
proof -
  show "stripped out"
    using assms py_strip_stripped
    by (auto simp: strip_brackets_and_quotes_eq stripped_def split: if_splits)
  show "CHR ''.'' \<notin> set out"
  proof (cases "n = []")
    case True
    with assms show ?thesis by (simp add: strip_brackets_and_quotes_eq)
  next
    case False
    with assms have "out = py_strip (unquote (unbracket (unqualify (py_strip n))))"
      by (simp add: strip_brackets_and_quotes_eq)
    then have "set out \<subseteq> set (unqualify (py_strip n))"
      using set_py_strip set_unquote set_unbracket by (metis order_trans)
    with unqualify_no_dot show ?thesis by blast
  qed
qed

lemma normalize_fixed_iff:
  assumes "stripped s" and "CHR ''.'' \<notin> set s"
  shows "(strip_brackets_and_quotes s = Inr s) = (\<not> has_wrapper s)"
proof (cases "s = []")
  case True
  then show ?thesis
    by (simp add: strip_brackets_and_quotes_eq has_wrapper_def startswith_def endswith_def)
next
  case False
  from assms have s0: "unqualify (py_strip s) = s"
    by (simp add: py_strip_fixed unqualify_def)
  show ?thesis
  proof (cases "has_wrapper s")
    case False
    then have "unbracket s = s" "unquote s = s"
      by (simp_all add: has_wrapper_def unbracket_id unquote_id)
    with False \<open>s \<noteq> []\<close> s0 assms(1) show ?thesis
      by (simp add: strip_brackets_and_quotes_eq py_strip_fixed)
  next
    case True
    have "length (unquote (unbracket s)) < length s"
    proof (cases "startswith s CHR ''['' \<or> endswith s CHR '']''")
      case True
      then have "length (unbracket s) < length s" by (rule unbracket_shorter)
      with length_unquote [of "unbracket s"] show ?thesis by simp
    next
      case False
      then have u: "unbracket s = s" by (simp add: unbracket_id)
      from False \<open>has_wrapper s\<close>
      have "startswith s dq \<or> startswith s sq \<or> endswith s dq \<or> endswith s sq"
        by (auto simp: has_wrapper_def)
      then show ?thesis unfolding u by (rule unquote_shorter)
    qed
    with length_py_strip [of "unquote (unbracket s)"]
    have "length (py_strip (unquote (unbracket s))) < length s" by simp
    then have "py_strip (unquote (unbracket s)) \<noteq> s" by auto
    with True \<open>s \<noteq> []\<close> s0 show ?thesis
      by (simp add: strip_brackets_and_quotes_eq)
  qed
qed

section \<open>The index loops as recursion over the remaining text\<close>

text \<open>The two \<^verbatim>\<open>while i < len(...)\<close> loops never subscript out of range: each equals
  a structural recursion over the characters from position \<open>i\<close> on.\<close>

lemma drop_nth_Cons: "i < length xs \<Longrightarrow> drop i xs = xs ! i # drop (Suc i) xs"
  by (simp add: Cons_nth_drop_Suc)

lemma scan_close_eq: "scan_close sql_text i depth = Inr (match_close (drop i sql_text) i depth)"
proof (induction sql_text i depth rule: scan_close.induct)
  case (1 sql_text i depth)
  show ?case
  proof (cases "i < length sql_text")
    case True
    then have g: "py_getitem sql_text i = Inr (sql_text ! i)"
      by (simp add: py_getitem_def)
    from True g "1.IH" [OF True g] show ?thesis
      by (subst scan_close.simps) (simp add: drop_nth_Cons)
  next
    case False
    then show ?thesis by (subst scan_close.simps) simp
  qed
qed

lemma split_loop_eq:
  "split_loop s i st = Inr (split_finish (foldl split_step st (drop i s)))"
proof (induction "length s - i" arbitrary: i st)
  case 0
  then show ?case by (subst split_loop.simps) simp
next
  case (Suc n)
  then have lt: "i < length s" and n: "n = length s - Suc i" by auto
  have g: "py_getitem s i = Inr (s ! i)"
    using lt by (simp add: py_getitem_def)
  show ?case
    by (subst split_loop.simps) (simp add: lt g drop_nth_Cons [OF lt] Suc.hyps(1) [OF n])
qed

lemma split_top_level_commas_eq:
  "split_top_level_commas s =
     Inr (split_finish (foldl split_step ([], [], 0, False, False, False) s))"
  by (simp add: split_top_level_commas_def split_loop_eq)

section \<open>No subscript fails\<close>

lemma raw_table_of_eq: "raw_table_of pre = Inr (raw_table_name pre)"
  by (simp add: raw_table_of_def raw_table_name_def py_last_Inr Let_def split: option.splits)

lemma find_blocks_loop_step:
  "find_blocks_loop sql_text lower idx blocks =
     (case py_find ''create table'' lower idx of
        None \<Rightarrow> Inr blocks
      | Some pos \<Rightarrow>
          (case py_find ''('' sql_text pos of
             None \<Rightarrow> find_blocks_loop sql_text lower (pos + 12) blocks
           | Some open_paren_pos \<Rightarrow>
               (case match_close (drop open_paren_pos sql_text) open_paren_pos 0 of
                  None \<Rightarrow> find_blocks_loop sql_text lower (pos + 12) blocks
                | Some end_pos \<Rightarrow>
                    find_blocks_loop sql_text lower (end_pos + 1)
                      (blocks @ [\<lparr>table_raw = raw_table_name (py_slice sql_text pos open_paren_pos),
                                  cols_block = py_slice sql_text (open_paren_pos + 1) end_pos\<rparr>]))))"
  by (subst find_blocks_loop.simps)
     (simp add: raw_table_of_eq scan_close_eq split: option.splits)

lemma match_close_bound: "match_close cs i depth = Some e \<Longrightarrow> i \<le> e \<and> e < i + length cs"
  by (induction cs arbitrary: i depth) (fastforce split: if_splits)+

lemma find_blocks_loop_total:
  "\<exists>bs. find_blocks_loop sql_text lower idx blocks = Inr (blocks @ bs)"
proof (induction "max (length lower) (length sql_text) + 1 - idx" arbitrary: idx blocks
    rule: less_induct)
  case less
  show ?case
  proof (cases "py_find ''create table'' lower idx")
    case None
    then show ?thesis by (subst find_blocks_loop_step) simp
  next
    case (Some pos)
    from py_find_bound [OF Some] have p: "idx \<le> pos" "pos + 12 \<le> length lower" by simp_all
    then have m: "max (length lower) (length sql_text) + 1 - (pos + 12)
        < max (length lower) (length sql_text) + 1 - idx" by linarith
    note skip = less.hyps [OF m, of blocks]
    show ?thesis
    proof (cases "py_find ''('' sql_text pos")
      case None
      with Some skip show ?thesis by (subst find_blocks_loop_step) simp
    next
      case op: (Some open_paren_pos)
      from py_find_bound [OF op] have o: "pos \<le> open_paren_pos" "open_paren_pos < length sql_text"
        by simp_all
      show ?thesis
      proof (cases "match_close (drop open_paren_pos sql_text) open_paren_pos 0")
        case None
        with Some op skip show ?thesis by (subst find_blocks_loop_step) simp
      next
        case e: (Some end_pos)
        from match_close_bound [OF e] o have "open_paren_pos \<le> end_pos" "end_pos < length sql_text"
          by simp_all
        with p o have "max (length lower) (length sql_text) + 1 - (end_pos + 1)
          < max (length lower) (length sql_text) + 1 - idx" by linarith
        from less.hyps [OF this] obtain bs where
          "find_blocks_loop sql_text lower (end_pos + 1)
             (blocks @ [\<lparr>table_raw = raw_table_name (py_slice sql_text pos open_paren_pos),
                         cols_block = py_slice sql_text (open_paren_pos + 1) end_pos\<rparr>]) =
           Inr ((blocks @ [\<lparr>table_raw = raw_table_name (py_slice sql_text pos open_paren_pos),
                         cols_block = py_slice sql_text (open_paren_pos + 1) end_pos\<rparr>]) @ bs)"
          by blast
        with Some op e show ?thesis by (subst find_blocks_loop_step) simp
      qed
    qed
  qed
qed

lemma find_create_table_blocks_total: "\<exists>bs. find_create_table_blocks sql_text = Inr bs"
  using find_blocks_loop_total [of sql_text "py_lower sql_text" 0 "[]"]
  by (simp add: find_create_table_blocks_def)

lemma parse_column_name_from_def_eq:
  "parse_column_name_from_def col_def =
     (let s = py_strip col_def in
      if constraint_re_match s then Inr []
      else strip_brackets_and_quotes
             (leading_name (if endswith s CHR '','' then py_strip (butlast s) else s)))"
  by (auto simp: parse_column_name_from_def_def leading_name_def Let_def py_getitem_def
      strip_brackets_and_quotes_eq split: option.splits list.splits)

lemma parse_column_name_from_def_total: "\<exists>c. parse_column_name_from_def col_def = Inr c"
  by (simp add: parse_column_name_from_def_eq strip_brackets_and_quotes_eq Let_def)

lemma collect_cols_total: "\<exists>cs. collect_cols ps cols = Inr cs"
proof (induction ps arbitrary: cols)
  case Nil
  show ?case by simp
next
  case (Cons p ps)
  obtain c where "parse_column_name_from_def p = Inr c"
    using parse_column_name_from_def_total by blast
  with Cons show ?case by simp
qed

lemma block_table_total: "\<exists>t. block_table blk = Inr t"
  by (simp add: block_table_def strip_brackets_and_quotes_eq)

lemma block_cols_total: "\<exists>cs. block_cols blk = Inr cs"
  by (simp add: block_cols_def split_top_level_commas_eq collect_cols_total)

lemma schema_loop_Cons:
  "schema_loop (blk # blks) tables =
     (case block_table blk of
        Inl e \<Rightarrow> Inl e
      | Inr tbl \<Rightarrow>
          (case block_cols blk of
             Inl e \<Rightarrow> Inl e
           | Inr cols \<Rightarrow>
               schema_loop blks (if cols \<noteq> [] then dict_set tables tbl cols else tables)))"
  by (simp add: block_table_def block_cols_def split: sum.splits)

lemma schema_loop_total: "\<exists>m. schema_loop blks tables = Inr m"
proof (induction blks arbitrary: tables)
  case Nil
  show ?case by simp
next
  case (Cons blk blks)
  obtain t cs where "block_table blk = Inr t" "block_cols blk = Inr cs"
    using block_table_total block_cols_total by blast
  with Cons show ?case by (simp add: schema_loop_Cons del: schema_loop.simps)
qed


section \<open>The mapping built from the blocks\<close>

lemma map_of_dict_set: "map_of (dict_set kvs k v) = (map_of kvs)(k \<mapsto> v)"
  by (induction kvs k v rule: dict_set.induct) auto

lemma keys_dict_set: "fst ` set (dict_set kvs k v) = insert k (fst ` set kvs)"
  by (induction kvs k v rule: dict_set.induct) auto

lemma distinct_dict_set:
  "distinct (map fst kvs) \<Longrightarrow> distinct (map fst (dict_set kvs k v))"
proof (induction kvs k v rule: dict_set.induct)
  case (1 k v)
  show ?case by simp
next
  case (2 k' v' kvs k v)
  then show ?case
    using keys_dict_set [of kvs k v] by auto
qed

lemma values_dict_set: "snd ` set (dict_set kvs k v) \<subseteq> insert v (snd ` set kvs)"
  by (induction kvs k v rule: dict_set.induct) auto

lemma schema_loop_step:
  "\<exists>tb cs. block_table blk = Inr tb \<and> block_cols blk = Inr cs \<and>
     (\<forall>blks tables. schema_loop (blk # blks) tables =
           schema_loop blks (if cs \<noteq> [] then dict_set tables tb cs else tables))"
proof -
  obtain tb cs where b: "block_table blk = Inr tb" "block_cols blk = Inr cs"
    using block_table_total block_cols_total by blast
  then have "schema_loop (blk # blks) tables =
           schema_loop blks (if cs \<noteq> [] then dict_set tables tb cs else tables)" for blks tables
    by (simp add: schema_loop_Cons del: schema_loop.simps)
  with b show ?thesis by blast
qed

lemma schema_loop_lookup:
  "schema_loop blks tables = Inr m \<Longrightarrow>
   map_of m t =
     (if nonempty_columns_of t blks = [] then map_of tables t
      else Some (last (nonempty_columns_of t blks)))"
proof (induction blks arbitrary: tables)
  case Nil
  then show ?case by (simp add: nonempty_columns_of_def)
next
  case (Cons blk blks)
  obtain tb cs where b: "block_table blk = Inr tb" "block_cols blk = Inr cs"
    and step: "\<And>blks tables. schema_loop (blk # blks) tables =
           schema_loop blks (if cs \<noteq> [] then dict_set tables tb cs else tables)"
    using schema_loop_step [of blk] by blast
  have cols: "nonempty_columns_of t (blk # blks) =
      (if tb = t \<and> cs \<noteq> [] then [cs] else []) @ nonempty_columns_of t blks"
    by (simp add: nonempty_columns_of_def b)
  from Cons.prems have "schema_loop blks (if cs \<noteq> [] then dict_set tables tb cs else tables) = Inr m"
    by (simp only: step)
  from Cons.IH [OF this] show ?case
    by (auto simp: cols map_of_dict_set)
qed

lemma schema_loop_distinct:
  "schema_loop blks tables = Inr m \<Longrightarrow> distinct (map fst tables) \<Longrightarrow> distinct (map fst m)"
proof (induction blks arbitrary: tables)
  case Nil
  then show ?case by simp
next
  case (Cons blk blks)
  obtain tb cs where
    step: "\<And>blks tables. schema_loop (blk # blks) tables =
           schema_loop blks (if cs \<noteq> [] then dict_set tables tb cs else tables)"
    using schema_loop_step [of blk] by blast
  from Cons.prems(1) have m: "schema_loop blks (if cs \<noteq> [] then dict_set tables tb cs else tables) = Inr m"
    by (simp only: step)
  from Cons.prems(2) have "distinct (map fst (if cs \<noteq> [] then dict_set tables tb cs else tables))"
    by (simp add: distinct_dict_set)
  from Cons.IH [OF m this] show ?case .
qed

lemma schema_loop_nonempty:
  "schema_loop blks tables = Inr m \<Longrightarrow> [] \<notin> snd ` set tables \<Longrightarrow> [] \<notin> snd ` set m"
proof (induction blks arbitrary: tables)
  case Nil
  then show ?case by simp
next
  case (Cons blk blks)
  obtain tb cs where
    step: "\<And>blks tables. schema_loop (blk # blks) tables =
           schema_loop blks (if cs \<noteq> [] then dict_set tables tb cs else tables)"
    using schema_loop_step [of blk] by blast
  from Cons.prems(1) have m: "schema_loop blks (if cs \<noteq> [] then dict_set tables tb cs else tables) = Inr m"
    by (simp only: step)
  from Cons.prems(2) have "[] \<notin> snd ` set (if cs \<noteq> [] then dict_set tables tb cs else tables)"
    using values_dict_set [of tables tb cs] by auto
  from Cons.IH [OF m this] show ?case .
qed

lemma collect_cols_constraints:
  "list_all (\<lambda>p. constraint_re_match (py_strip p)) parts \<Longrightarrow> collect_cols parts cols = Inr cols"
  by (induction parts) (simp_all add: parse_column_name_from_def_eq)

section \<open>Properties of the column definition parser\<close>

lemma ident_not_space: "is_ident_char c \<Longrightarrow> \<not> py_isspace c"
  by (auto simp: is_ident_char_def py_isspace_def Let_def)

lemma ident_not_special:
  "is_ident_char c \<Longrightarrow>
     c \<noteq> CHR ''['' \<and> c \<noteq> CHR '']'' \<and> c \<noteq> dq \<and> c \<noteq> sq \<and> c \<noteq> backtick \<and>
     c \<noteq> CHR ''.'' \<and> c \<noteq> CHR '','' \<and> c \<noteq> CHR ''('' \<and> c \<noteq> CHR '')''"
  by (auto simp: is_ident_char_def Let_def dq_def sq_def backtick_def)



lemma lit_ci_from_lower_prefix: "py_lower w = p @ q \<Longrightarrow> lit_ci p (w @ r)"
proof (induction p arbitrary: w)
  case Nil
  then show ?case by (simp add: lit_ci_def)
next
  case (Cons a p)
  then obtain c w' where w: "w = c # w'" "py_lower_char c = a" "py_lower w' = p @ q"
    by (cases w) (auto simp: py_lower_def)
  with Cons.IH [of w'] show ?case by (simp add: lit_ci_def)
qed


lemma startswith_iff: "startswith s c \<longleftrightarrow> s \<noteq> [] \<and> hd s = c"
  by (cases s) (auto simp: startswith_def)

lemma endswith_iff: "endswith s c \<longleftrightarrow> s \<noteq> [] \<and> last s = c"
  by (cases s rule: rev_cases) (auto simp: endswith_def)

lemma takeWhile_snoc_not: "\<not> P x \<Longrightarrow> takeWhile P (a @ [x]) = takeWhile P a"
  by (induction a) auto

lemma rstrip_decomp:
  "\<exists>ws. t = rev (dropWhile py_isspace (rev t)) @ ws \<and> list_all py_isspace ws"
proof -
  have "rev t = takeWhile py_isspace (rev t) @ dropWhile py_isspace (rev t)" by simp
  then have "t = rev (dropWhile py_isspace (rev t)) @ rev (takeWhile py_isspace (rev t))"
    by (metis rev_append rev_rev_ident)
  moreover have "list_all py_isspace (rev (takeWhile py_isspace (rev t)))"
    by (auto simp: list_all_iff dest: set_takeWhileD)
  ultimately show ?thesis by blast
qed

lemma takeWhile_ident_append_ws:
  "list_all py_isspace ws \<Longrightarrow> takeWhile is_ident_char (a @ ws) = takeWhile is_ident_char a"
proof (induction a)
  case Nil
  then show ?case by (cases ws) (auto dest: ident_not_space)
next
  case (Cons x a)
  then show ?case by simp
qed

lemma takeWhile_ident_py_strip:
  assumes "t \<noteq> []" and "is_ident_char (hd t)"
  shows "takeWhile is_ident_char (py_strip t) = takeWhile is_ident_char t"
    and "py_strip t \<noteq> []" and "hd (py_strip t) = hd t"
proof -
  from assms have d: "dropWhile py_isspace t = t"
    by (cases t) (auto simp: ident_not_space)
  obtain ws where ws: "t = rev (dropWhile py_isspace (rev t)) @ ws" "list_all py_isspace ws"
    using rstrip_decomp by blast
  have p: "py_strip t = rev (dropWhile py_isspace (rev t))"
    by (simp add: py_strip_def d)
  from ws(1) have t: "t = py_strip t @ ws" by (simp add: p)
  show "takeWhile is_ident_char (py_strip t) = takeWhile is_ident_char t"
    using takeWhile_ident_append_ws [OF ws(2), of "py_strip t"] t by simp
  show ne: "py_strip t \<noteq> []"
  proof
    assume "py_strip t = []"
    with t have "t = ws" by simp
    with assms ws(2) show False by (cases t) (auto simp: ident_not_space)
  qed
  from t ne show "hd (py_strip t) = hd t"
    by (metis hd_append2)
qed

lemma name_re_match_ident:
  assumes "t \<noteq> []" and "is_ident_char (hd t)"
  shows "name_re_match t = Some (takeWhile is_ident_char t)"
proof -
  obtain c cs where t: "t = c # cs" using assms(1) by (cases t) auto
  with assms(2) have c: "is_ident_char c" by simp
  from c t have d: "dropWhile py_isspace t = t" by (simp add: ident_not_space)
  from c t show ?thesis
    using ident_not_special [OF c] ident_not_space [OF c]
    by (simp add: name_re_match_def delimited_name_def Let_def)
qed

lemma normalize_ident:
  assumes "w \<noteq> []" and "list_all is_ident_char w"
  shows "strip_brackets_and_quotes w = Inr w"
proof -
  from assms have h: "is_ident_char (hd w)" and l: "is_ident_char (last w)"
    by (auto simp: list_all_iff)
  have "stripped w"
    using h l by (simp add: stripped_def ident_not_space)
  moreover have "CHR ''.'' \<notin> set w"
    using assms(2) ident_not_special by (auto simp: list_all_iff)
  moreover have "\<not> has_wrapper w"
    using h l ident_not_special [of "hd w"] ident_not_special [of "last w"]
    by (auto simp: has_wrapper_def startswith_iff endswith_iff)
  ultimately show ?thesis by (simp add: normalize_fixed_iff)
qed

lemma parse_bare_identifier:
  assumes st: "stripped s" and ne: "s \<noteq> []" and h: "is_ident_char (hd s)"
    and nc: "\<not> constraint_re_match s"
  shows "parse_column_name_from_def s = Inr (takeWhile is_ident_char s)"
    and "takeWhile is_ident_char s \<noteq> []"
proof -
  define s' where "s' = (if endswith s CHR '','' then py_strip (butlast s) else s)"
  have s': "s' \<noteq> [] \<and> is_ident_char (hd s') \<and> takeWhile is_ident_char s' = takeWhile is_ident_char s"
  proof (cases "endswith s CHR '',''")
    case False
    with ne h show ?thesis by (simp add: s'_def)
  next
    case True
    then have l: "last s = CHR '',''"
      by (simp add: endswith_iff)
    with ne have sb: "s = butlast s @ [CHR '','']"
      by (metis append_butlast_last_id)
    have bne: "butlast s \<noteq> []"
    proof
      assume "butlast s = []"
      with sb have "s = [CHR '','']" by simp
      with h ident_not_special [of "CHR '',''"] show False by simp
    qed
    then have bh: "hd (butlast s) = hd s"
      using sb by (metis hd_append2)
    have "\<not> is_ident_char CHR '',''"
      using ident_not_special [of "CHR '',''"] by blast
    then have "takeWhile is_ident_char (butlast s @ [CHR '','']) = takeWhile is_ident_char (butlast s)"
      by (rule takeWhile_snoc_not)
    with sb have tw: "takeWhile is_ident_char s = takeWhile is_ident_char (butlast s)"
      by simp
    from takeWhile_ident_py_strip [OF bne] bh h tw True show ?thesis
      by (simp add: s'_def)
  qed
  show w: "takeWhile is_ident_char s \<noteq> []"
    using ne h by (cases s) auto
  have "strip_brackets_and_quotes (takeWhile is_ident_char s) = Inr (takeWhile is_ident_char s)"
    using w by (intro normalize_ident) (auto simp: list_all_iff dest: set_takeWhileD)
  moreover have "name_re_match s' = Some (takeWhile is_ident_char s)"
    using s' name_re_match_ident [of s'] by simp
  ultimately show "parse_column_name_from_def s = Inr (takeWhile is_ident_char s)"
    using nc st by (simp add: parse_column_name_from_def_eq py_strip_fixed leading_name_def
        s'_def [symmetric] Let_def)
qed

section \<open>Properties of the scanner under an appended tail\<close>





lemma find_in_prefix: "find_in sub s = Some k \<Longrightarrow> is_prefix sub (drop k s)"
proof (induction s arbitrary: k)
  case Nil
  then show ?case by (simp split: if_splits)
next
  case (Cons c cs)
  then show ?case by (cases "is_prefix sub (c # cs)") auto
qed





lemma is_prefix_nth: "is_prefix sub s \<Longrightarrow> k < length sub \<Longrightarrow> s ! k = sub ! k"
proof (induction sub s arbitrary: k rule: is_prefix.induct)
  case (3 p ps c cs)
  then show ?case by (cases k) auto
qed auto

lemma py_find_prefix:
  "py_find sub s i = Some p \<Longrightarrow> is_prefix sub (drop p s)"
  by (auto simp: py_find_def add.commute split: if_splits dest!: find_in_prefix)

lemma keyword_before_paren:
  assumes kw: "py_find ''create table'' (py_lower sql_text) idx = Some pos"
    and op: "py_find ''('' sql_text pos = Some open_paren_pos"
  shows "pos + 12 \<le> open_paren_pos"
proof (rule ccontr)
  assume "\<not> pos + 12 \<le> open_paren_pos"
  moreover from py_find_bound [OF op] have b: "pos \<le> open_paren_pos" "open_paren_pos < length sql_text"
    by simp_all
  ultimately obtain k where k: "open_paren_pos = pos + k" "k < 12"
    by (metis le_Suc_ex not_le nat_add_left_cancel_less)
  from py_find_prefix [OF op] b have "sql_text ! open_paren_pos = CHR ''(''"
    using is_prefix_nth [of "''(''" "drop open_paren_pos sql_text" 0] by simp
  then have "py_lower sql_text ! open_paren_pos = CHR ''(''"
    using b by (simp add: py_lower_def py_lower_char_def)
  moreover from py_find_prefix [OF kw] k b
  have "py_lower sql_text ! open_paren_pos = ''create table'' ! k"
    using is_prefix_nth [of "''create table''" "drop pos (py_lower sql_text)" k]
    by (simp add: py_lower_def)
  ultimately have "''create table'' ! k = CHR ''(''" by simp
  moreover have "''create table'' ! k \<in> set ''create table''"
    using k(2) by (intro nth_mem) simp
  ultimately show False by auto
qed





lemma length_py_lower [simp]: "length (py_lower s) = length s"
  by (simp add: py_lower_def)

lemma py_lower_append: "py_lower (s @ u) = py_lower s @ py_lower u"
  by (simp add: py_lower_def)


section \<open>Properties of the registry builder and reader\<close>






lemma table_make_doc [simp]:
  "table (make_doc sha1_hexdigest set_order tbl cols) = tbl"
  "top_columns (make_doc sha1_hexdigest set_order tbl cols) = pick_top_columns cols 4"
  "aliases (make_doc sha1_hexdigest set_order tbl cols) = set_order (alias_set tbl)"
  by (simp_all add: make_doc_def Let_def)

section \<open>Statements of the plain shape\<close>

lemma find_in_char:
  "c \<notin> set a \<Longrightarrow> find_in [c] (a @ c # r) = Some (length a)"
  by (induction a) auto

lemma match_close_plain:
  "CHR ''('' \<notin> set b \<Longrightarrow> CHR '')'' \<notin> set b \<Longrightarrow>
   match_close (b @ CHR '')'' # r) i 1 = Some (i + length b)"
  by (induction b arbitrary: i) auto

lemma simple_name_chars:
  "simple_name s \<Longrightarrow> c \<in> set s \<Longrightarrow> is_ident_char c"
  by (auto simp: simple_name_def list_all_iff)

lemma lower_keyword: "py_lower ''CREATE TABLE '' = ''create table ''"
  by code_simp

lemma keyword_found:
  "py_find ''create table'' (py_lower (''CREATE TABLE '' @ r)) 0 = Some 0"
proof -
  have "py_lower (''CREATE TABLE '' @ r) = ''create table '' @ py_lower r"
    by (simp only: py_lower_append lower_keyword)
  then show ?thesis by (simp add: py_find_def)
qed

lemma table_char_ident: "is_ident_char c \<Longrightarrow> is_table_char c"
  by (simp add: is_table_char_def)

lemma space_facts:
  "py_isspace CHR '' ''" "\<not> is_table_char CHR '' ''" "\<not> is_ident_char CHR '' ''"
  "\<not> py_isspace CHR ''T''"
  by code_simp+

lemma takeWhile_all: "list_all P xs \<Longrightarrow> \<not> P y \<Longrightarrow> takeWhile P (xs @ y # r) = xs"
  by (induction xs) auto

lemma dropWhile_all: "list_all P xs \<Longrightarrow> \<not> P y \<Longrightarrow> dropWhile P (xs @ y # r) = y # r"
  by (induction xs) auto

lemma lower_letters:
  "py_lower_char CHR ''C'' = CHR ''c''" "py_lower_char CHR ''R'' = CHR ''r''"
  "py_lower_char CHR ''E'' = CHR ''e''" "py_lower_char CHR ''A'' = CHR ''a''"
  "py_lower_char CHR ''T'' = CHR ''t''" "py_lower_char CHR ''B'' = CHR ''b''"
  "py_lower_char CHR ''L'' = CHR ''l''"
  by code_simp+

lemma raw_table_simple:
  assumes "simple_name t"
  shows "raw_table_name (''CREATE TABLE '' @ t @ '' '') = t"
proof -
  have l: "list_all is_table_char t" and ne: "t \<noteq> []"
    using assms by (auto simp: simple_name_def list_all_iff table_char_ident)
  have c: "match_lit_ci ''create'' (''CREATE TABLE '' @ t @ '' '') = Some ('' TABLE '' @ t @ '' '')"
    by (simp add: lower_letters)
  have w1: "match_ws_plus ('' TABLE '' @ t @ '' '') = Some (''TABLE '' @ t @ '' '')"
    by (simp add: match_ws_plus_def space_facts)
  have tb: "match_lit_ci ''table'' (''TABLE '' @ t @ '' '') = Some ('' '' @ t @ '' '')"
    by (simp add: lower_letters)
  obtain x xs where t: "t = x # xs" using ne by (cases t) auto
  with l have "\<not> py_isspace x"
    using assms simple_name_chars [of t x] ident_not_space by auto
  then have w2: "match_ws_plus ('' '' @ t @ '' '') = Some (t @ '' '')"
    by (simp add: match_ws_plus_def space_facts t)
  have g: "takeWhile is_table_char (t @ '' '') = t" "dropWhile is_table_char (t @ '' '') = '' ''"
    using takeWhile_all [OF l space_facts(2), of "[]"] dropWhile_all [OF l space_facts(2), of "[]"]
    by simp_all
  have "table_re_match_here (''CREATE TABLE '' @ t @ '' '') = Some t"
    unfolding table_re_match_here_def
    by (simp only: c w1 tb w2 option.case Let_def g) (simp add: ne space_facts)
  then have "table_re_search (''CREATE TABLE '' @ t @ '' '') = Some t"
    by simp
  then show ?thesis by (simp add: raw_table_name_def)
qed

lemma match_close_balanced:
  "balanced b d \<Longrightarrow> 0 \<le> d \<Longrightarrow> match_close (b @ CHR '')'' # r) i (d + 1) = Some (i + length b)"
proof (induction b arbitrary: d i)
  case Nil
  then show ?case by simp
next
  case (Cons c cs)
  show ?case
  proof (cases "c = CHR ''(''")
    case True
    with Cons.prems have "balanced cs (d + 1)" by simp
    from Cons.IH [OF this, of "i + 1"] Cons.prems(2) True show ?thesis by simp
  next
    case False
    show ?thesis
    proof (cases "c = CHR '')''")
      case True
      with Cons.prems have b: "balanced cs (d - 1)" "0 < d" by simp_all
      from Cons.IH [OF b(1), of "i + 1"] b(2) True show ?thesis by simp
    next
      case nb: False
      with False Cons.prems have "balanced cs d" by simp
      from Cons.IH [OF this Cons.prems(2), of "i + 1"] False nb show ?thesis by simp
    qed
  qed
qed

lemma balanced_plain:
  "CHR ''('' \<notin> set b \<Longrightarrow> CHR '')'' \<notin> set b \<Longrightarrow> balanced b 0"
  by (induction b) auto

lemma paren_facts:
  "CHR ''('' \<notin> set ''CREATE TABLE ''" "\<not> is_ident_char CHR ''(''" "\<not> is_ident_char CHR '')''"
  "\<not> is_ident_char CHR '',''"
  by code_simp+

lemma blocks_of_balanced_statement:
  assumes t: "simple_name t"
    and body: "balanced body 0"
  shows "find_create_table_blocks (''CREATE TABLE '' @ t @ '' ('' @ body @ '')'') =
         Inr [\<lparr>table_raw = t, cols_block = body\<rparr>]"
proof -
  define a where "a = ''CREATE TABLE '' @ t @ '' ''"
  define sql_text where "sql_text = a @ CHR ''('' # body @ '')''"
  have shape: "''CREATE TABLE '' @ t @ '' ('' @ body @ '')'' = sql_text"
    by (simp add: sql_text_def a_def)
  have la: "length a = length t + 14" by (simp add: a_def)
  have len: "length sql_text = length t + length body + 16"
    by (simp add: sql_text_def la)
  have "CHR ''('' \<notin> set a"
    using simple_name_chars [OF t, of "CHR ''(''"] paren_facts
    by (auto simp: a_def)
  then have "find_in ''('' sql_text = Some (length a)"
    unfolding sql_text_def by (rule find_in_char)
  then have op: "py_find ''('' sql_text 0 = Some (length t + 14)"
    by (simp add: py_find_def la)
  have kw: "py_find ''create table'' (py_lower sql_text) 0 = Some 0"
    using keyword_found [of "t @ '' ('' @ body @ '')''"]
    by (simp add: sql_text_def a_def)
  have pre: "py_slice sql_text 0 (length t + 14) = a"
    by (simp add: py_slice_def sql_text_def la)
  have dr: "drop (length t + 14) sql_text = CHR ''('' # body @ '')''"
    by (simp add: sql_text_def la)
  have mc: "match_close (drop (length t + 14) sql_text) (length t + 14) 0 =
      Some (length t + 15 + length body)"
    using match_close_balanced [OF body, of "[]" "length t + 15"]
    by (simp add: dr add.commute)
  have cb: "py_slice sql_text (length t + 14 + 1) (length t + 15 + length body) = body"
    by (simp add: py_slice_def sql_text_def la)
  have fin: "py_find ''create table'' (py_lower sql_text) (length t + 15 + length body + 1) = None"
    by (simp add: py_find_def len)
  have last_step: "find_blocks_loop sql_text (py_lower sql_text) (length t + 15 + length body + 1) bs =
      Inr bs" for bs
    by (subst find_blocks_loop_step) (simp only: fin option.case)
  have r: "raw_table_name a = t"
    unfolding a_def by (rule raw_table_simple [OF t])
  have "find_blocks_loop sql_text (py_lower sql_text) 0 [] =
      Inr [\<lparr>table_raw = raw_table_name a, cols_block = body\<rparr>]"
    by (subst find_blocks_loop_step)
       (simp only: kw op option.case pre mc cb last_step append_Nil)
  then show ?thesis
    unfolding find_create_table_blocks_def shape r .
qed

lemma blocks_of_plain_statement:
  assumes "simple_name t" and "CHR ''('' \<notin> set body" and "CHR '')'' \<notin> set body"
  shows "find_create_table_blocks (''CREATE TABLE '' @ t @ '' ('' @ body @ '')'') =
         Inr [\<lparr>table_raw = t, cols_block = body\<rparr>]"
  using assms by (intro blocks_of_balanced_statement balanced_plain)

lemma split_step_plain:
  "plain_char ch \<Longrightarrow>
   split_step (parts, cur, 0, False, False, False) ch = (parts, cur @ [ch], 0, False, False, False)"
  by (simp add: plain_char_def)

lemma foldl_split_step_plain:
  "list_all plain_char seg \<Longrightarrow>
   foldl split_step (parts, cur, 0, False, False, False) seg =
     (parts, cur @ seg, 0, False, False, False)"
  by (induction seg arbitrary: cur) (simp_all add: split_step_plain del: split_step.simps)

lemma comma_facts:
  "CHR '','' \<noteq> sq" "CHR '','' \<noteq> dq" "plain_char CHR '' ''"
  by code_simp+

lemma split_step_comma:
  "split_step (parts, cur, 0, False, False, False) CHR '','' =
     ((if py_strip cur \<noteq> [] then parts @ [py_strip cur] else parts), [], 0, False, False, False)"
  by (simp add: comma_facts Let_def)

lemma py_strip_leading_space: "py_strip (CHR '' '' # y) = py_strip y"
  by (simp add: py_strip_def space_facts)

lemma split_joined_rest:
  assumes "py_strip cur \<noteq> []"
    and "\<forall>y \<in> set ss. list_all plain_char y \<and> stripped y \<and> y \<noteq> []"
  shows "split_finish (foldl split_step (parts, cur, 0, False, False, False)
           (concat (map (\<lambda>y. '', '' @ y) ss))) = parts @ py_strip cur # ss"
  using assms
proof (induction ss arbitrary: parts cur)
  case Nil
  then show ?case by (simp add: Let_def)
next
  case (Cons y ss)
  then have y: "list_all plain_char y" "stripped y" "y \<noteq> []" by simp_all
  have s: "py_strip (CHR '' '' # y) = y"
    using y by (simp add: py_strip_leading_space py_strip_fixed)
  have "foldl split_step (parts, cur, 0, False, False, False) ('', '' @ y) =
      (parts @ [py_strip cur], CHR '' '' # y, 0, False, False, False)"
    using Cons.prems(1) y(1)
    by (simp add: split_step_comma split_step_plain comma_facts foldl_split_step_plain
        del: split_step.simps)
  moreover have "split_finish (foldl split_step (parts @ [py_strip cur], CHR '' '' # y, 0, False, False, False)
           (concat (map (\<lambda>y. '', '' @ y) ss))) = (parts @ [py_strip cur]) @ py_strip (CHR '' '' # y) # ss"
    using Cons.prems(2) y(3) by (intro Cons.IH) (simp_all add: s)
  ultimately show ?case
    by (simp add: s del: split_step.simps)
qed

lemma split_joined:
  assumes "segs \<noteq> []"
    and "\<forall>y \<in> set segs. list_all plain_char y \<and> stripped y \<and> y \<noteq> []"
  shows "split_top_level_commas (py_join '', '' segs) = Inr segs"
proof -
  obtain y ss where segs: "segs = y # ss" using assms(1) by (cases segs) auto
  with assms(2) have y: "list_all plain_char y" "stripped y" "y \<noteq> []" by simp_all
  have pj: "py_join '', '' segs = y @ concat (map (\<lambda>y. '', '' @ y) ss)"
    unfolding py_join_def segs by (simp only: list.case)
  have "foldl split_step ([], [], 0, False, False, False) (py_join '', '' segs) =
      foldl split_step ([], y, 0, False, False, False) (concat (map (\<lambda>y. '', '' @ y) ss))"
    unfolding pj foldl_append foldl_split_step_plain [OF y(1)] by (simp only: append_Nil)
  moreover have "split_finish (foldl split_step ([], y, 0, False, False, False)
      (concat (map (\<lambda>y. '', '' @ y) ss))) = [] @ py_strip y # ss"
    using assms(2) y by (intro split_joined_rest) (simp_all add: segs py_strip_fixed)
  ultimately show ?thesis
    using y by (simp add: split_top_level_commas_eq segs py_strip_fixed)
qed

lemma set_py_join: "set (py_join sep xs) \<subseteq> set sep \<union> (\<Union>y \<in> set xs. set y)"
  by (auto simp: py_join_def split: list.splits)

lemma ident_plain: "is_ident_char c \<Longrightarrow> plain_char c"
  using ident_not_special [of c] by (auto simp: plain_char_def)

lemma column_segment:
  assumes c: "simple_name c" and ty: "simple_name ty"
    and nc: "\<not> constraint_re_match (c @ '' '' @ ty)"
  shows "list_all plain_char (c @ '' '' @ ty)" and "stripped (c @ '' '' @ ty)"
    and "c @ '' '' @ ty \<noteq> []"
    and "parse_column_name_from_def (c @ '' '' @ ty) = Inr c"
proof -
  let ?seg = "c @ '' '' @ ty"
  from c ty show pl: "list_all plain_char ?seg"
    by (auto simp: simple_name_def list_all_iff ident_plain comma_facts)
  from c have hc: "c \<noteq> []" "is_ident_char (hd c)" "list_all is_ident_char c"
    by (auto simp: simple_name_def list_all_iff)
  from ty have lt: "ty \<noteq> []" "is_ident_char (last ty)"
    by (auto simp: simple_name_def list_all_iff)
  have h: "hd ?seg = hd c" using hc(1) by simp
  have l: "last ?seg = last ty" using lt(1) by simp
  show st: "stripped ?seg"
    unfolding stripped_def h l using hc(2) lt(2) by (simp add: ident_not_space)
  show ne: "?seg \<noteq> []" using hc(1) by simp
  have tw: "takeWhile is_ident_char ?seg = c"
    using takeWhile_all [OF hc(3) space_facts(3), of ty] by simp
  from parse_bare_identifier(1) [OF st ne _ nc] hc(2) show
    "parse_column_name_from_def ?seg = Inr c"
    by (simp only: h tw)
qed

lemma keep_first_snoc:
  "rev (remdups (rev (xs @ [x]))) =
     (if x \<in> set xs then rev (remdups (rev xs)) else rev (remdups (rev xs)) @ [x])"
  by simp

lemma collect_cols_names:
  assumes "\<forall>p \<in> set ps. parse_column_name_from_def (seg p) = Inr (name p) \<and> name p \<noteq> []"
  shows "collect_cols (map seg ps) (rev (remdups (rev pre))) =
         Inr (rev (remdups (rev (pre @ map name ps))))"
  using assms
proof (induction ps arbitrary: pre)
  case Nil
  show ?case by simp
next
  case (Cons p ps)
  then have p: "parse_column_name_from_def (seg p) = Inr (name p)" "name p \<noteq> []"
    by simp_all
  have acc: "(if name p \<notin> set (rev (remdups (rev pre))) then rev (remdups (rev pre)) @ [name p]
       else rev (remdups (rev pre))) = rev (remdups (rev (pre @ [name p])))"
    by simp
  from Cons.IH [of "pre @ [name p]"] Cons.prems show ?case
    by (simp only: list.map collect_cols.simps p sum.case if_True acc simp_thms)
       (simp del: remdups.simps)
qed






text \<open>
  For a statement \<^verbatim>\<open>CREATE TABLE t (c1 TYPE1, c2 TYPE2, ...)\<close> whose names are bare
  identifiers and none of whose column definitions is matched by the constraint pattern,
  the extractor returns the one table \<open>t\<close> with its columns in declaration order, each
  kept at its first occurrence.
\<close>

theorem plain_create_table:
  assumes t: "simple_name t" and ne: "defs \<noteq> []"
    and defs: "\<forall>(c, ty) \<in> set defs. simple_name c \<and> simple_name ty \<and>
                 \<not> constraint_re_match (c @ '' '' @ ty)"
  shows "ddl_to_schema (create_table_text t defs) =
         Inr [(t, rev (remdups (rev (map fst defs))))]"
proof -
  define segs where "segs = map (\<lambda>(c, ty). c @ '' '' @ ty) defs"
  have seg: "list_all plain_char y \<and> stripped y \<and> y \<noteq> []" if "y \<in> set segs" for y
    using that defs column_segment(1,2,3) by (fastforce simp: segs_def)
  have body: "column_defs_text defs = py_join '', '' segs"
    by (simp add: column_defs_text_def segs_def)
  have sp: "split_top_level_commas (column_defs_text defs) = Inr segs"
    unfolding body using ne seg by (intro split_joined) (auto simp: segs_def)
  have no_paren: "CHR ''('' \<notin> set (column_defs_text defs)" "CHR '')'' \<notin> set (column_defs_text defs)"
  proof -
    have "x \<in> set '', '' \<or> (\<exists>y \<in> set segs. x \<in> set y)" if "x \<in> set (column_defs_text defs)" for x
      using that set_py_join [of "'', ''" segs] unfolding body by blast
    moreover have "x \<noteq> CHR ''('' \<and> x \<noteq> CHR '')''" if "y \<in> set segs" "x \<in> set y" for x y
      using seg [OF that(1)] that(2) by (auto simp: list_all_iff plain_char_def)
    ultimately show "CHR ''('' \<notin> set (column_defs_text defs)" "CHR '')'' \<notin> set (column_defs_text defs)"
      by fastforce+
  qed
  have blocks: "find_create_table_blocks (create_table_text t defs) =
      Inr [\<lparr>table_raw = t, cols_block = column_defs_text defs\<rparr>]"
    unfolding create_table_text_def by (rule blocks_of_plain_statement [OF t no_paren])
  have tn: "strip_brackets_and_quotes t = Inr t"
    using t by (intro normalize_ident) (simp_all add: simple_name_def)
  have "collect_cols (map (\<lambda>(c, ty). c @ '' '' @ ty) defs) (rev (remdups (rev []))) =
      Inr (rev (remdups (rev ([] @ map fst defs))))"
    using defs column_segment(4) by (intro collect_cols_names) (auto simp: simple_name_def)
  then have cc: "collect_cols segs [] = Inr (rev (remdups (rev (map fst defs))))"
    by (simp add: segs_def)
  show ?thesis
    using ne by (simp add: ddl_to_schema_def blocks tn sp cc)
qed

lemma plain_create_table_example:
  "ddl_to_schema ''CREATE TABLE orders (id INT, name TEXT, id BIGINT)'' =
     Inr [(''orders'', [''id'', ''name''])]"
proof -
  have n: "simple_name ''orders''" "simple_name ''id''" "simple_name ''INT''"
    "simple_name ''name''" "simple_name ''TEXT''" "simple_name ''BIGINT''"
    by code_simp+
  have c: "\<not> constraint_re_match (''id'' @ '' '' @ ''INT'')"
    "\<not> constraint_re_match (''name'' @ '' '' @ ''TEXT'')"
    "\<not> constraint_re_match (''id'' @ '' '' @ ''BIGINT'')"
    by code_simp+
  from plain_create_table [of "''orders''"
      "[(''id'', ''INT''), (''name'', ''TEXT''), (''id'', ''BIGINT'')]"] n c
  show ?thesis
    by (simp add: create_table_text_def column_defs_text_def py_join_def)
qed

section \<open>Properties of the raw table identifier\<close>

lemma split_ws_nonspace:
  "list_all (\<lambda>c. \<not> py_isspace c) g \<Longrightarrow> split_ws cur g = (if cur @ g = [] then [] else [cur @ g])"
  by (induction g arbitrary: cur) auto

lemma split_ws_spaces:
  "list_all py_isspace ws \<Longrightarrow> split_ws cur ws = (if cur = [] then [] else [cur])"
  by (induction ws arbitrary: cur) auto

lemma split_ws_trailing:
  "list_all py_isspace ws \<Longrightarrow> split_ws cur (r @ ws) = split_ws cur r"
  by (induction r arbitrary: cur) (auto simp: split_ws_spaces)

lemma split_ws_leading: "split_ws [] (dropWhile py_isspace s) = split_ws [] s"
  by (induction s) auto

lemma py_split_py_strip: "py_split (py_strip s) = py_split s"
proof -
  obtain ws where ws: "dropWhile py_isspace s =
      rev (dropWhile py_isspace (rev (dropWhile py_isspace s))) @ ws" "list_all py_isspace ws"
    using rstrip_decomp by blast
  have "split_ws [] (py_strip s) = split_ws [] (py_strip s @ ws)"
    using ws(2) by (simp add: split_ws_trailing)
  also have "py_strip s @ ws = dropWhile py_isspace s"
    using ws(1) by (simp add: py_strip_def)
  finally show ?thesis by (simp add: py_split_def split_ws_leading)
qed

lemma split_ws_tokens: "[] \<notin> set (split_ws cur s)"
  by (induction s arbitrary: cur) auto

lemma split_ws_after_space:
  "py_isspace w \<Longrightarrow> \<exists>ts. split_ws cur (a @ w # rest) = ts @ split_ws [] rest"
proof (induction a arbitrary: cur)
  case Nil
  then show ?case by (cases "cur = []") auto
next
  case (Cons x a)
  show ?case
  proof (cases "py_isspace x")
    case True
    from Cons.IH [OF Cons.prems, of "[]"] obtain ts where
      "split_ws [] (a @ w # rest) = ts @ split_ws [] rest" by blast
    with True show ?thesis by (cases "cur = []") auto
  next
    case False
    from Cons.IH [OF Cons.prems, of "cur @ [x]"] False show ?thesis by simp
  qed
qed

lemma last_token:
  assumes "a \<noteq> []" "py_isspace (last a)" "g \<noteq> []" "list_all (\<lambda>c. \<not> py_isspace c) g"
    "list_all py_isspace ws"
  shows "last (py_split (a @ g @ ws)) = g"
proof -
  from assms(1) have a: "a = butlast a @ [last a]" by simp
  obtain ts where "split_ws [] (butlast a @ last a # (g @ ws)) = ts @ split_ws [] (g @ ws)"
    using split_ws_after_space [OF assms(2)] by blast
  then have "split_ws [] (a @ g @ ws) = ts @ split_ws [] (g @ ws)"
    by (metis a append_Cons append_Nil append_assoc)
  also have "split_ws [] (g @ ws) = [g]"
    using assms(3,4,5) by (simp add: split_ws_trailing split_ws_nonspace)
  finally show ?thesis by (simp add: py_split_def)
qed

lemma match_lit_ci_suffix:
  "match_lit_ci p s = Some r \<Longrightarrow> \<exists>x. s = x @ r \<and> length x = length p"
proof (induction p s rule: match_lit_ci.induct)
  case (1 s)
  then show ?case by simp
next
  case (2 p ps)
  then show ?case by simp
next
  case (3 p ps c cs)
  then obtain x where "cs = x @ r" "length x = length ps"
    by (auto split: if_splits)
  then have "c # cs = (c # x) @ r \<and> length (c # x) = length (p # ps)" by simp
  then show ?case by blast
qed

lemma match_ws_plus_suffix:
  "match_ws_plus s = Some r \<Longrightarrow> \<exists>x. s = x @ r \<and> x \<noteq> [] \<and> list_all py_isspace x"
proof -
  assume a: "match_ws_plus s = Some r"
  then obtain c cs where s: "s = c # cs" "py_isspace c" "r = dropWhile py_isspace cs"
    by (auto simp: match_ws_plus_def split: list.splits if_splits)
  have "s = (c # takeWhile py_isspace cs) @ r" by (simp add: s)
  moreover have "list_all py_isspace (c # takeWhile py_isspace cs)"
    using s(2) by (auto simp: list_all_iff dest: set_takeWhileD)
  ultimately show ?thesis by blast
qed

lemma table_char_not_space: "is_table_char c \<Longrightarrow> \<not> py_isspace c"
  by (auto simp: is_table_char_def is_ident_char_def py_isspace_def Let_def dq_def)

lemma table_re_match_here_shape:
  assumes "table_re_match_here s = Some g"
  shows "\<exists>a ws. s = a @ g @ ws \<and> a \<noteq> [] \<and> py_isspace (last a) \<and> g \<noteq> [] \<and>
           list_all (\<lambda>c. \<not> py_isspace c) g \<and> list_all py_isspace ws"
proof -
  from assms obtain r1 r2 r3 r4 where
    m: "match_lit_ci ''create'' s = Some r1" "match_ws_plus r1 = Some r2"
      "match_lit_ci ''table'' r2 = Some r3" "match_ws_plus r3 = Some r4"
    and g: "g = takeWhile is_table_char r4" "g \<noteq> []"
      "dropWhile py_isspace (dropWhile is_table_char r4) = []"
    by (auto simp: table_re_match_here_def Let_def split: option.splits if_splits)
  from match_lit_ci_suffix [OF m(1)] obtain x1 where x1: "s = x1 @ r1" by blast
  from match_ws_plus_suffix [OF m(2)] obtain w1 where w1: "r1 = w1 @ r2" by blast
  from match_lit_ci_suffix [OF m(3)] obtain x2 where x2: "r2 = x2 @ r3" by blast
  from match_ws_plus_suffix [OF m(4)] obtain w2 where
    w2: "r3 = w2 @ r4" "w2 \<noteq> []" "list_all py_isspace w2" by blast
  define ws where "ws = dropWhile is_table_char r4"
  have r4: "r4 = g @ ws" by (simp add: g(1) ws_def)
  have sp: "list_all py_isspace ws"
    using g(3) unfolding ws_def [symmetric]
    by (metis dropWhile_eq_Nil_conv list_all_iff)
  have ns: "list_all (\<lambda>c. \<not> py_isspace c) g"
    unfolding g(1) by (auto simp: list_all_iff dest!: set_takeWhileD table_char_not_space)
  define a where "a = x1 @ w1 @ x2 @ w2"
  have "s = a @ g @ ws" by (simp add: a_def x1 w1 x2 w2(1) r4)
  moreover have "a \<noteq> []" "py_isspace (last a)"
    using w2(2,3) by (auto simp: a_def list_all_iff)
  ultimately show ?thesis using g(2) ns sp by blast
qed

lemma table_re_search_suffix:
  "table_re_search s = Some g \<Longrightarrow> \<exists>p s'. s = p @ s' \<and> table_re_match_here s' = Some g"
proof (induction s)
  case Nil
  then show ?case by simp
next
  case (Cons c cs)
  show ?case
  proof (cases "table_re_match_here (c # cs)")
    case None
    with Cons obtain p s' where "cs = p @ s'" "table_re_match_here s' = Some g" by auto
    then have "c # cs = (c # p) @ s'" by simp
    with \<open>table_re_match_here s' = Some g\<close> show ?thesis by blast
  next
    case (Some g')
    with Cons.prems have "table_re_match_here (c # cs) = Some g" by simp
    then show ?thesis by (metis append_Nil)
  qed
qed

lemma table_re_search_last_token:
  assumes "table_re_search pre = Some g"
  shows "last (py_split pre) = g"
proof -
  from table_re_search_suffix [OF assms] obtain p s' where
    p: "pre = p @ s'" "table_re_match_here s' = Some g" by blast
  from table_re_match_here_shape [OF p(2)] obtain a ws where
    a: "s' = a @ g @ ws" "a \<noteq> []" "py_isspace (last a)" "g \<noteq> []"
      "list_all (\<lambda>c. \<not> py_isspace c) g" "list_all py_isspace ws" by blast
  have "last (py_split ((p @ a) @ g @ ws)) = g"
    using a by (intro last_token) simp_all
  then show ?thesis by (simp add: p(1) a(1))
qed

lemma split_ws_nonempty:
  "\<not> py_isspace c \<Longrightarrow> split_ws cur (c # cs) \<noteq> []"
proof -
  assume "\<not> py_isspace c"
  then have "split_ws cur (c # cs) = split_ws (cur @ [c]) cs" by simp
  moreover have "cur' \<noteq> [] \<Longrightarrow> split_ws cur' cs \<noteq> []" for cur'
    by (induction cs arbitrary: cur') auto
  ultimately show ?thesis by simp
qed

text \<open>Whatever follows the keyword, the raw table identifier is the last
  whitespace-delimited token of the span that starts with the keyword: the sentinel of the
  source is never used.\<close>

lemma raw_table_is_last_token:
  assumes "lit_ci ''create table'' pre"
  shows "raw_table_of pre = Inr (last (py_split pre))" and "py_split pre \<noteq> []"
    and "last (py_split pre) \<noteq> []"
proof -
  from assms obtain c cs where pre: "pre = c # cs" "py_lower_char c = CHR ''c''"
    by (cases pre) (auto simp: lit_ci_def split: if_splits)
  have "\<not> py_isspace c"
    using pre(2) by (auto simp: py_isspace_def py_lower_char_def Let_def split: if_splits)
  then show ne: "py_split pre \<noteq> []"
    by (simp add: py_split_def pre(1) split_ws_nonempty del: split_ws.simps)
  then have "last (py_split pre) \<in> set (py_split pre)" by simp
  then show tok: "last (py_split pre) \<noteq> []"
    using split_ws_tokens [of "[]" pre] by (auto simp: py_split_def)
  show "raw_table_of pre = Inr (last (py_split pre))"
  proof (cases "table_re_search pre")
    case None
    with ne tok show ?thesis
      by (simp add: raw_table_of_eq raw_table_name_def py_split_py_strip)
  next
    case (Some g)
    with table_re_search_last_token [OF Some] show ?thesis
      by (simp add: raw_table_of_eq raw_table_name_def)
  qed
qed


lemma is_prefix_lit_ci: "is_prefix p (py_lower s) \<Longrightarrow> lit_ci p s"
proof -
  have "is_prefix p (py_lower s) \<Longrightarrow> \<exists>r. match_lit_ci p s = Some r"
  proof (induction p s rule: match_lit_ci.induct)
    case (3 p ps c cs)
    then show ?case by (simp add: py_lower_def)
  qed (simp_all add: py_lower_def)
  then show "is_prefix p (py_lower s) \<Longrightarrow> lit_ci p s"
    by (auto simp: lit_ci_def)
qed

lemma is_prefix_take: "is_prefix p s \<Longrightarrow> length p \<le> n \<Longrightarrow> is_prefix p (take n s)"
proof (induction p s arbitrary: n rule: is_prefix.induct)
  case (3 p ps c cs)
  then show ?case by (cases n) auto
qed auto

text \<open>The span that the scanner inspects starts with the keyword.\<close>

lemma scanner_span_starts_with_keyword:
  assumes kw: "py_find ''create table'' (py_lower sql_text) idx = Some pos"
    and op: "py_find ''('' sql_text pos = Some open_paren_pos"
  shows "lit_ci ''create table'' (py_slice sql_text pos open_paren_pos)"
proof -
  from keyword_before_paren [OF kw op] have n: "length ''create table'' \<le> open_paren_pos - pos"
    by simp
  from py_find_prefix [OF kw] have "is_prefix ''create table'' (py_lower (drop pos sql_text))"
    by (simp add: py_lower_def drop_map)
  from is_prefix_take [OF this n]
  have "is_prefix ''create table'' (py_lower (py_slice sql_text pos open_paren_pos))"
    by (simp add: py_slice_def py_lower_def take_map)
  then show ?thesis by (rule is_prefix_lit_ci)
qed

section \<open>The properties claimed by the specification\<close>

text \<open>
  Claim C1 (the code departs from it).  The claim: for every well-formed input of the
  shape \<^verbatim>\<open>CREATE TABLE t (c1 TYPE, c2 TYPE, ...)\<close> the extractor returns
  \<^verbatim>\<open>{t: [c1, c2, ...]}\<close>, in declaration order, each column kept at its first
  occurrence.  The pattern that recognises table-level constraints has no word boundary
  after its keywords, so a column whose name merely begins with one of them is taken for
  a constraint and dropped:
  \<^verbatim>\<open>CREATE TABLE t (checksum INT)\<close> yields the empty mapping, and
  \<^verbatim>\<open>CREATE TABLE t (id INT, index_no INT, name TEXT)\<close> yields \<^verbatim>\<open>{t: [id, name]}\<close>.
  Where no column definition is matched by that pattern, the claim holds
  (\<open>plain_create_table\<close>).
\<close>

theorem keyword_prefixed_column_dropped:
  "parse_column_name_from_def ''checksum INT'' = Inr [] \<and>
   ddl_to_schema ''CREATE TABLE t (checksum INT)'' = Inr [] \<and>
   ddl_to_schema ''CREATE TABLE t (id INT, index_no INT, name TEXT)'' =
     Inr [(''t'', [''id'', ''name''])]"
  by code_simp





text \<open>
  Claim C4 (amended).  \<^verbatim>\<open>CREATE TABLE [dbo].[Orders] ([OrderId] INT)\<close> and
  \<^verbatim>\<open>CREATE TABLE Orders (OrderId INT)\<close> both produce the table key \<^verbatim>\<open>Orders\<close>.  The
  normalizer never fails, and it removes one layer of brackets and one layer of quotes:
  applied to one of its own outputs it returns that output unchanged exactly when the
  output neither begins with \<^verbatim>\<open>[\<close>, \<^verbatim>\<open>"\<close> or \<^verbatim>\<open>'\<close> nor ends with \<^verbatim>\<open>]\<close>,
  \<^verbatim>\<open>"\<close> or \<^verbatim>\<open>'\<close>.
\<close>

theorem normalizer_keys_and_fixed_points:
  "ddl_to_schema ''CREATE TABLE [dbo].[Orders] ([OrderId] INT)'' =
     Inr [(''Orders'', [''OrderId''])] \<and>
   ddl_to_schema ''CREATE TABLE Orders (OrderId INT)'' = Inr [(''Orders'', [''OrderId''])] \<and>
   (\<forall>n. \<exists>out. strip_brackets_and_quotes n = Inr out) \<and>
   (\<forall>n out. strip_brackets_and_quotes n = Inr out \<longrightarrow>
      (strip_brackets_and_quotes out = Inr out) = (\<not> has_wrapper out))"
proof (intro conjI allI impI)
  show "ddl_to_schema ''CREATE TABLE [dbo].[Orders] ([OrderId] INT)'' =
     Inr [(''Orders'', [''OrderId''])]"
    by code_simp
  show "ddl_to_schema ''CREATE TABLE Orders (OrderId INT)'' = Inr [(''Orders'', [''OrderId''])]"
    by code_simp
  show "\<exists>out. strip_brackets_and_quotes n = Inr out" for n
    by (simp add: strip_brackets_and_quotes_eq)
  show "(strip_brackets_and_quotes out = Inr out) = (\<not> has_wrapper out)"
    if "strip_brackets_and_quotes n = Inr out" for n out
    using that by (intro normalize_fixed_iff) (auto dest: normalized_props)
qed

theorem normalizer_keys_and_fixed_points_witness:
  "strip_brackets_and_quotes ''[dbo].[Orders]'' = Inr ''Orders'' \<and>
   \<not> has_wrapper ''Orders'' \<and>
   strip_brackets_and_quotes ''Orders'' = Inr ''Orders''"
proof -
  have a: "strip_brackets_and_quotes ''[dbo].[Orders]'' = Inr ''Orders''"
    by code_simp
  have b: "\<not> has_wrapper ''Orders''"
    by code_simp
  from normalizer_keys_and_fixed_points a
  have "(strip_brackets_and_quotes ''Orders'' = Inr ''Orders'') = (\<not> has_wrapper ''Orders'')"
    by blast
  with a b show ?thesis by simp
qed

text \<open>
  The claim as stated fails: \<^verbatim>\<open>[a]\<close> is an output of the normalizer (for the input
  \<^verbatim>\<open>[[a]]\<close>), and normalizing it again gives \<^verbatim>\<open>a\<close>.
\<close>

theorem normalizer_not_idempotent:
  "strip_brackets_and_quotes ''[[a]]'' = Inr ''[a]'' \<and>
   strip_brackets_and_quotes ''[a]'' = Inr ''a'' \<and>
   strip_brackets_and_quotes ''[a]'' \<noteq> Inr ''[a]''"
  by code_simp




text \<open>
  Claim C6.  The extractor returns a mapping (it never fails), and no table of the
  returned mapping has an empty column list.  A block all of whose segments are
  table-level constraints leaves the mapping as it was: the extraction of
  \<^verbatim>\<open>CREATE TABLE t (PRIMARY KEY (a))\<close> is the empty mapping.
\<close>

theorem no_table_without_columns:
  "(\<exists>m. ddl_to_schema sql_text = Inr m \<and> list_all (\<lambda>(t, cols). cols \<noteq> []) m) \<and>
   (split_top_level_commas (cols_block blk) = Inr parts \<and>
      list_all (\<lambda>p. constraint_re_match (py_strip p)) parts \<longrightarrow>
      schema_loop (blk # blks) tables = schema_loop blks tables) \<and>
   ddl_to_schema ''CREATE TABLE t (PRIMARY KEY (a))'' = Inr []"
proof (intro conjI impI)
  obtain bs where bs: "find_create_table_blocks sql_text = Inr bs"
    using find_create_table_blocks_total by blast
  obtain m where m: "schema_loop bs [] = Inr m"
    using schema_loop_total by blast
  from schema_loop_nonempty [OF m] have "list_all (\<lambda>(t, cols). cols \<noteq> []) m"
    by (force simp: list_all_iff)
  with bs m show "\<exists>m. ddl_to_schema sql_text = Inr m \<and> list_all (\<lambda>(t, cols). cols \<noteq> []) m"
    by (simp add: ddl_to_schema_def)
next
  assume "split_top_level_commas (cols_block blk) = Inr parts \<and>
      list_all (\<lambda>p. constraint_re_match (py_strip p)) parts"
  then have "block_cols blk = Inr []"
    by (simp add: block_cols_def collect_cols_constraints)
  moreover obtain tb where "block_table blk = Inr tb"
    using block_table_total by blast
  ultimately show "schema_loop (blk # blks) tables = schema_loop blks tables"
    by (simp add: schema_loop_Cons del: schema_loop.simps)
next
  show "ddl_to_schema ''CREATE TABLE t (PRIMARY KEY (a))'' = Inr []"
    by code_simp
qed

theorem no_table_without_columns_witness:
  "split_top_level_commas ''PRIMARY KEY (a)'' = Inr [''PRIMARY KEY (a)''] \<and>
   list_all (\<lambda>p. constraint_re_match (py_strip p)) [''PRIMARY KEY (a)''] \<and>
   schema_loop [\<lparr>table_raw = ''t'', cols_block = ''PRIMARY KEY (a)''\<rparr>] [(''u'', [''x''])] =
     Inr [(''u'', [''x''])]"
proof -
  have a: "split_top_level_commas (cols_block \<lparr>table_raw = ''t'', cols_block = ''PRIMARY KEY (a)''\<rparr>) =
      Inr [''PRIMARY KEY (a)'']"
    by code_simp
  have b: "list_all (\<lambda>p. constraint_re_match (py_strip p)) [''PRIMARY KEY (a)'']"
    by code_simp
  from no_table_without_columns [of _ "\<lparr>table_raw = ''t'', cols_block = ''PRIMARY KEY (a)''\<rparr>"
      "[''PRIMARY KEY (a)'']" "[]" "[(''u'', [''x''])]"] a b
  have "schema_loop [\<lparr>table_raw = ''t'', cols_block = ''PRIMARY KEY (a)''\<rparr>] [(''u'', [''x''])] =
      schema_loop [] [(''u'', [''x''])]"
    by blast
  with a b show ?thesis by simp
qed

text \<open>
  Claim C7 (amended).  The returned mapping has one entry for each table name, and the
  entry of a name \<open>t\<close> is the column list of the last block, in text order, whose table
  identifier normalizes to \<open>t\<close> and whose column list is not empty; a name with no such
  block has no entry.  For \<^verbatim>\<open>CREATE TABLE t (a INT); CREATE TABLE [t] (b INT, c INT)\<close>
  the mapping is \<^verbatim>\<open>{t: [b, c]}\<close>.
\<close>

theorem last_nonempty_write_wins:
  "(\<exists>blocks m. find_create_table_blocks sql_text = Inr blocks \<and>
      ddl_to_schema sql_text = Inr m \<and> distinct (map fst m) \<and>
      (\<forall>t. map_of m t =
         (if nonempty_columns_of t blocks = [] then None
          else Some (last (nonempty_columns_of t blocks))))) \<and>
   ddl_to_schema ''CREATE TABLE t (a INT); CREATE TABLE [t] (b INT, c INT)'' =
     Inr [(''t'', [''b'', ''c''])]"
proof (intro conjI)
  obtain bs where bs: "find_create_table_blocks sql_text = Inr bs"
    using find_create_table_blocks_total by blast
  obtain m where m: "schema_loop bs [] = Inr m"
    using schema_loop_total by blast
  have "distinct (map fst m)"
    using schema_loop_distinct [OF m] by simp
  moreover have "map_of m t =
         (if nonempty_columns_of t bs = [] then None
          else Some (last (nonempty_columns_of t bs)))" for t
    using schema_loop_lookup [OF m, of t] by simp
  ultimately show "\<exists>blocks m. find_create_table_blocks sql_text = Inr blocks \<and>
      ddl_to_schema sql_text = Inr m \<and> distinct (map fst m) \<and>
      (\<forall>t. map_of m t =
         (if nonempty_columns_of t blocks = [] then None
          else Some (last (nonempty_columns_of t blocks))))"
    using bs m by (simp add: ddl_to_schema_def)
next
  show "ddl_to_schema ''CREATE TABLE t (a INT); CREATE TABLE [t] (b INT, c INT)'' =
     Inr [(''t'', [''b'', ''c''])]"
    by code_simp
qed

text \<open>
  The claim as stated fails when the last block of a name has no column: for
  \<^verbatim>\<open>CREATE TABLE t (a INT); CREATE TABLE t (PRIMARY KEY (a))\<close> both blocks normalize to
  \<^verbatim>\<open>t\<close>, the column list of the last one is empty, and the mapping holds the column
  list of the first.
\<close>

theorem last_block_without_columns_does_not_win:
  "find_create_table_blocks ''CREATE TABLE t (a INT); CREATE TABLE t (PRIMARY KEY (a))'' =
     Inr [\<lparr>table_raw = ''t'', cols_block = ''a INT''\<rparr>,
          \<lparr>table_raw = ''t'', cols_block = ''PRIMARY KEY (a)''\<rparr>] \<and>
   block_table \<lparr>table_raw = ''t'', cols_block = ''a INT''\<rparr> = Inr ''t'' \<and>
   block_table \<lparr>table_raw = ''t'', cols_block = ''PRIMARY KEY (a)''\<rparr> = Inr ''t'' \<and>
   block_cols \<lparr>table_raw = ''t'', cols_block = ''a INT''\<rparr> = Inr [''a''] \<and>
   block_cols \<lparr>table_raw = ''t'', cols_block = ''PRIMARY KEY (a)''\<rparr> = Inr [] \<and>
   ddl_to_schema ''CREATE TABLE t (a INT); CREATE TABLE t (PRIMARY KEY (a))'' =
     Inr [(''t'', [''a''])]"
  by code_simp

text \<open>
  Claim C8 (the code departs from it).  The claim: the raw table identifier is the
  trailing identifier token of the text between the keyword and the parenthesis, else the
  last whitespace-delimited token of that text, and the sentinel \<^verbatim>\<open>unknown_table\<close>
  when that text is empty or blank.  The span the source inspects, \<^verbatim>\<open>sql_text[pos:open_paren_pos]\<close>,
  starts with the keyword itself, so its token list is never empty: for
  \<^verbatim>\<open>CREATE TABLE (a INT)\<close> and \<^verbatim>\<open>create table(a INT)\<close> the raw table identifier is the
  keyword's second word.  For every span the scanner inspects, the raw table identifier
  is the last whitespace-delimited token of the span (\<open>raw_table_is_last_token\<close>,
  \<open>scanner_span_starts_with_keyword\<close>).
\<close>

theorem blank_span_yields_keyword_not_sentinel:
  "raw_table_of ''CREATE TABLE '' = Inr ''TABLE'' \<and>
   find_create_table_blocks ''CREATE TABLE (a INT)'' =
     Inr [\<lparr>table_raw = ''TABLE'', cols_block = ''a INT''\<rparr>] \<and>
   ddl_to_schema ''CREATE TABLE (a INT)'' = Inr [(''TABLE'', [''a''])] \<and>
   find_create_table_blocks ''create table(a INT)'' =
     Inr [\<lparr>table_raw = ''table'', cols_block = ''a INT''\<rparr>]"
  by code_simp



text \<open>
  Claim C10.  The scan for the matching close parenthesis counts every parenthesis of the
  body, also one inside a quoted string literal.  For
  \<^verbatim>\<open>CREATE TABLE t (a VARCHAR(5) DEFAULT ')', b INT)\<close> the scan from the opening
  parenthesis (position 15) stops at the quoted close parenthesis (position 38), the
  emitted body ends just before it, and the extractor returns \<^verbatim>\<open>{t: [a]}\<close>: column
  \<^verbatim>\<open>b\<close> is absent.
\<close>

theorem quoted_close_paren_ends_block:
  "scan_close (''CREATE TABLE t (a VARCHAR(5) DEFAULT '' @ [sq] @ '')'' @ [sq] @ '', b INT)'') 15 0 =
     Inr (Some 38) \<and>
   find_create_table_blocks (''CREATE TABLE t (a VARCHAR(5) DEFAULT '' @ [sq] @ '')'' @ [sq] @ '', b INT)'') =
     Inr [\<lparr>table_raw = ''t'', cols_block = ''a VARCHAR(5) DEFAULT '' @ [sq]\<rparr>] \<and>
   ddl_to_schema (''CREATE TABLE t (a VARCHAR(5) DEFAULT '' @ [sq] @ '')'' @ [sq] @ '', b INT)'') =
     Inr [(''t'', [''a''])]"
  by code_simp

end
